theory Spec2Isabelle
  imports Complex_Main "HOL-Library.Multiset" "HOL-Library.Product_Lexorder"
    "HOL-Library.List_Lexorder"
begin


section \<open>Insertion-ordered maps\<close>

text \<open>
  A JavaScript \<^verbatim>\<open>Map\<close> iterates in insertion order; \<^verbatim>\<open>set\<close> on a key that is
  present replaces the value in place, on a new key it appends the entry. The maps of the
  program are association lists with exactly these operations.
\<close>

type_synonym ('k, 'v) js_map = "('k \<times> 'v) list"

fun map_get :: "('k, 'v) js_map \<Rightarrow> 'k \<Rightarrow> 'v option" where
  "map_get [] k = None"
| "map_get ((k', v) # m) k = (if k' = k then Some v else map_get m k)"

definition map_has :: "('k, 'v) js_map \<Rightarrow> 'k \<Rightarrow> bool" where
  "map_has m k = (map_get m k \<noteq> None)"

fun map_set :: "('k, 'v) js_map \<Rightarrow> 'k \<Rightarrow> 'v \<Rightarrow> ('k, 'v) js_map" where
  "map_set [] k v = [(k, v)]"
| "map_set ((k', v') # m) k v = (if k' = k then (k, v) # m else (k', v') # map_set m k v)"

definition map_values :: "('k, 'v) js_map \<Rightarrow> 'v list" where
  "map_values m = map snd m"

definition map_keys :: "('k, 'v) js_map \<Rightarrow> 'k list" where
  "map_keys m = map fst m"

section \<open>Numbers in template strings\<close>

text \<open>
  The identifiers of runs, trials and criteria are integral numbers; a template string
  prints them in decimal, with a leading minus sign when negative.
\<close>

definition digit_char :: "nat \<Rightarrow> char" where
  "digit_char d = ''0123456789'' ! d"

function string_of_nat :: "nat \<Rightarrow> string" where
  "string_of_nat n =
     (if n < 10 then [digit_char n]
      else string_of_nat (n div 10) @ [digit_char (n mod 10)])"
  by pat_completeness auto
termination
  by (relation "measure id") auto

declare string_of_nat.simps [simp del]

definition string_of_int :: "int \<Rightarrow> string" where
  "string_of_int i =
     (if i < 0 then CHR ''-'' # string_of_nat (nat (- i)) else string_of_nat (nat i))"

section \<open>The timeline updater (timeline-calc.ts)\<close>

subsection \<open>Messages\<close>

record compute_job =
  runId :: int
  trialId :: int
  criterion :: int
  dataForCriterion :: "real list"

record compute_request =
  jobs :: "compute_job list"
  requestStart :: real

record 's compute_result =
  res_runId :: int
  res_trialId :: int
  res_criterion :: int
  stats :: 's

record 's compute_results =
  results :: "'s compute_result list"
  res_requestStart :: real

text \<open>What the main thread posts to the worker thread, and what the worker sends back.\<close>

datatype worker_request = Request compute_request | Exit

datatype 's worker_response = Exiting | Results "'s compute_results"

subsection \<open>Promises\<close>

text \<open>
  A promise is a fresh identifier in a store that records the value it was resolved
  with; a promise that has no value in the store is pending, and resolving a promise a
  second time changes nothing. The store also records which promise a promise has
  adopted.
\<close>

record 'a promise_store =
  fresh :: nat
  resolution :: "nat \<rightharpoonup> 'a"
  adopts :: "nat \<rightharpoonup> nat"

definition no_promises :: "'a promise_store" where
  "no_promises = \<lparr>fresh = 0, resolution = Map.empty, adopts = Map.empty\<rparr>"

definition new_promise :: "'a promise_store \<Rightarrow> nat \<times> 'a promise_store" where
  "new_promise ps = (fresh ps, ps\<lparr>fresh := Suc (fresh ps)\<rparr>)"

definition resolve :: "nat \<Rightarrow> 'a \<Rightarrow> 'a promise_store \<Rightarrow> 'a promise_store" where
  "resolve p v ps =
     (case resolution ps p of
        None \<Rightarrow> ps\<lparr>resolution := (resolution ps)(p \<mapsto> v)\<rparr>
      | Some _ \<Rightarrow> ps)"

text \<open>\<^verbatim>\<open>Promise.resolve(v)\<close>: a new promise that is resolved with \<open>v\<close> from the start.\<close>

definition promise_resolve :: "'a \<Rightarrow> 'a promise_store \<Rightarrow> nat \<times> 'a promise_store" where
  "promise_resolve v ps =
     (fresh ps, ps\<lparr>fresh := Suc (fresh ps), resolution := (resolution ps)(fresh ps \<mapsto> v)\<rparr>)"

text \<open>
  An \<^verbatim>\<open>async\<close> method that returns a promise hands its caller a new promise, which
  adopts the returned one: it is settled by that promise and by nothing else. So two
  calls of an \<^verbatim>\<open>async\<close> method never return the same promise.
\<close>

definition async_return :: "nat \<Rightarrow> 'a promise_store \<Rightarrow> nat \<times> 'a promise_store" where
  "async_return p ps =
     (fresh ps, ps\<lparr>fresh := Suc (fresh ps), adopts := (adopts ps)(fresh ps \<mapsto> p)\<rparr>)"

text \<open>
  The state of a promise, read once the jobs queued by settled promises have run: the
  value it was resolved with, or the state of the promise it has adopted. A promise only
  adopts a promise that was created before it.
\<close>

function promise_state :: "'a promise_store \<Rightarrow> nat \<Rightarrow> 'a option" where
  "promise_state ps q =
     (case adopts ps q of
        None \<Rightarrow> resolution ps q
      | Some p \<Rightarrow> if p < q then promise_state ps p else None)"
  by pat_completeness auto
termination
  by (relation "measure snd") auto

declare promise_state.simps [simp del]

subsection \<open>State\<close>

text \<open>
  \<open>TimelineWorker\<close>: the two shutdown fields of the class; what it has done to the
  worker thread (the messages posted, and whether \<^verbatim>\<open>terminate\<close> was called, a call
  whose promise nobody awaits); and what the handlers of the thread's \<^verbatim>\<open>error\<close> and
  \<^verbatim>\<open>exit\<close> events have logged. The \<^verbatim>\<open>exit\<close> event is emitted once the thread has
  stopped.
\<close>

datatype log_entry = ErrorLogged | ExitLogged int

record timeline_worker =
  posted :: "worker_request list"
  terminateCalled :: bool
  logged :: "log_entry list"
  shutdownResolve :: "nat option"
  shutdownPromise :: "nat option"

text \<open>
  \<open>BatchingTimelineUpdater\<close>: the fields of the class; the database collaborator with
  the log of the \<^verbatim>\<open>recordTimeline\<close> calls made on it (each with its outcome) and of
  the performance spans closed on it; and the two promise stores of the running program.
\<close>

record ('s, 'db) batching_timeline_updater =
  db :: 'db
  dbCalls :: "('s compute_result \<times> bool) list"
  spans :: "(real \<times> string) list"
  worker :: timeline_worker
  requests :: "(string, compute_job) js_map"
  activeRequests :: int
  requestsAtStart :: int
  promise :: "nat option"
  resolveJobsPromiseWithNumberOfJobs :: "nat option"
  jobPromises :: "int promise_store"
  voidPromises :: "unit promise_store"

definition new_TimelineWorker :: timeline_worker where
  "new_TimelineWorker =
     \<lparr>posted = [], terminateCalled = False, logged = [], shutdownResolve = None,
      shutdownPromise = None\<rparr>"

definition on_error :: "timeline_worker \<Rightarrow> timeline_worker" where
  "on_error w = w\<lparr>logged := logged w @ [ErrorLogged]\<rparr>"

definition on_exit :: "int \<Rightarrow> timeline_worker \<Rightarrow> timeline_worker" where
  "on_exit exitCode w = w\<lparr>logged := logged w @ [ExitLogged exitCode]\<rparr>"

definition new_BatchingTimelineUpdater :: "'db \<Rightarrow> ('s, 'db) batching_timeline_updater" where
  "new_BatchingTimelineUpdater d =
     \<lparr>db = d, dbCalls = [], spans = [], worker = new_TimelineWorker, requests = [],
      activeRequests = 0, requestsAtStart = 0, promise = None,
      resolveJobsPromiseWithNumberOfJobs = None,
      jobPromises = no_promises, voidPromises = no_promises\<rparr>"

subsection \<open>addValues\<close>

definition job_id :: "int \<Rightarrow> int \<Rightarrow> int \<Rightarrow> string" where
  "job_id trial run crit =
     string_of_int trial @ ''-'' @ string_of_int run @ ''-'' @ string_of_int crit"

definition without_missing :: "real option list \<Rightarrow> real list" where
  "without_missing vs = map the (filter (\<lambda>v. v \<noteq> None) vs)"

text \<open>
  The loop of the second branch pushes every value that is not null onto the array of the
  job that is in the table; the job keeps its place in the table.
\<close>

fun push_present :: "real list \<Rightarrow> real option list \<Rightarrow> real list" where
  "push_present acc [] = acc"
| "push_present acc (None # vs) = push_present acc vs"
| "push_present acc (Some v # vs) = push_present (acc @ [v]) vs"

definition addValues ::
  "int \<Rightarrow> int \<Rightarrow> int \<Rightarrow> real option list \<Rightarrow>
   ('s, 'db) batching_timeline_updater \<Rightarrow> ('s, 'db) batching_timeline_updater" where
  "addValues run trial crit vs u =
     (let ident = job_id trial run crit in
      case map_get (requests u) ident of
        None \<Rightarrow>
          (let withoutMissing = without_missing vs in
           if length withoutMissing = 0 then u
           else u\<lparr>requests := map_set (requests u) ident
                   \<lparr>runId = run, trialId = trial, criterion = crit,
                    dataForCriterion = withoutMissing\<rparr>\<rparr>)
      | Some job \<Rightarrow>
          u\<lparr>requests := map_set (requests u) ident
              (job\<lparr>dataForCriterion := push_present (dataForCriterion job) vs\<rparr>)\<rparr>)"

subsection \<open>receiveResults\<close>

text \<open>
  The database is a collaborator: \<open>recordTimeline\<close> is a parameter, a function from the
  database and the four arguments of the call to the outcome of the call (the awaited
  promise is fulfilled or rejected) and the database after it; a call that fails may have
  changed the database. A failed call ends \<open>receiveResults\<close> there, with the promise it
  returned rejected.
\<close>

datatype outcome = Fulfilled | Rejected

type_synonym ('s, 'db) record_timeline =
  "'db \<Rightarrow> int \<Rightarrow> int \<Rightarrow> int \<Rightarrow> 's \<Rightarrow> outcome \<times> 'db"

fun record_all ::
  "('s, 'db) record_timeline \<Rightarrow> 's compute_result list \<Rightarrow>
   ('s, 'db) batching_timeline_updater \<Rightarrow> outcome \<times> ('s, 'db) batching_timeline_updater" where
  "record_all recordTimeline [] u = (Fulfilled, u)"
| "record_all recordTimeline (r # rs) u =
     (case recordTimeline (db u) (res_runId r) (res_trialId r) (res_criterion r) (stats r) of
        (Rejected, d) \<Rightarrow> (Rejected, u\<lparr>db := d, dbCalls := dbCalls u @ [(r, False)]\<rparr>)
      | (Fulfilled, d) \<Rightarrow>
          record_all recordTimeline rs (u\<lparr>db := d, dbCalls := dbCalls u @ [(r, True)]\<rparr>))"

definition receiveResults ::
  "('s, 'db) record_timeline \<Rightarrow> 's compute_results \<Rightarrow>
   ('s, 'db) batching_timeline_updater \<Rightarrow> outcome \<times> ('s, 'db) batching_timeline_updater" where
  "receiveResults recordTimeline r u =
     (case record_all recordTimeline (results r) u of
        (Rejected, u1) \<Rightarrow> (Rejected, u1)
      | (Fulfilled, u1) \<Rightarrow>
          (let u2 = u1\<lparr>activeRequests := activeRequests u1 - int (length (results r))\<rparr> in
           if activeRequests u2 = 0 then
             (case resolveJobsPromiseWithNumberOfJobs u2 of
                Some p \<Rightarrow>
                  if res_requestStart r \<noteq> 0 then
                    (Fulfilled,
                     u2\<lparr>jobPromises := resolve p (requestsAtStart u2) (jobPromises u2),
                        resolveJobsPromiseWithNumberOfJobs := None,
                        spans := spans u2 @ [(res_requestStart r, ''generate-timeline'')]\<rparr>)
                  else (Fulfilled, u2)
              | None \<Rightarrow> (Fulfilled, u2))
           else (Fulfilled, u2)))"

subsection \<open>submitUpdateJobs\<close>

definition sendRequest :: "compute_request \<Rightarrow> timeline_worker \<Rightarrow> timeline_worker" where
  "sendRequest req w = w\<lparr>posted := posted w @ [Request req]\<rparr>"

definition consumeUpdateJobsForBenchmarking ::
  "('s, 'db) batching_timeline_updater \<Rightarrow>
   compute_job list \<times> ('s, 'db) batching_timeline_updater" where
  "consumeUpdateJobsForBenchmarking u = (map_values (requests u), u\<lparr>requests := []\<rparr>)"

definition processUpdateJobs ::
  "compute_job list \<Rightarrow> real \<Rightarrow> ('s, 'db) batching_timeline_updater \<Rightarrow>
   nat \<times> ('s, 'db) batching_timeline_updater" where
  "processUpdateJobs js start u =
     (if length js = 0 then
        (let (p, ps) = promise_resolve 0 (jobPromises u) in (p, u\<lparr>jobPromises := ps\<rparr>))
      else
        (let u1 = u\<lparr>activeRequests := activeRequests u + int (length js)\<rparr>;
             u2 = u1\<lparr>requestsAtStart := activeRequests u1\<rparr>;
             u3 = u2\<lparr>worker := sendRequest \<lparr>jobs = js, requestStart = start\<rparr> (worker u2)\<rparr>;
             (p, ps) = new_promise (jobPromises u3)
         in (p, u3\<lparr>jobPromises := ps, promise := Some p,
                    resolveJobsPromiseWithNumberOfJobs := Some p\<rparr>)))"

text \<open>\<open>now\<close> is what \<^verbatim>\<open>startRequest()\<close> returned: the start timestamp of the request.\<close>

definition submitUpdateJobs ::
  "real \<Rightarrow> ('s, 'db) batching_timeline_updater \<Rightarrow>
   nat \<times> ('s, 'db) batching_timeline_updater" where
  "submitUpdateJobs now u =
     (let (reqs, u1) = consumeUpdateJobsForBenchmarking u in processUpdateJobs reqs now u1)"

text \<open>The method is \<^verbatim>\<open>async\<close>: its caller gets a promise that adopts the one of the wave.\<close>

definition processUpdateJobsForBenchmarking ::
  "compute_job list \<Rightarrow> real \<Rightarrow> ('s, 'db) batching_timeline_updater \<Rightarrow>
   nat \<times> ('s, 'db) batching_timeline_updater" where
  "processUpdateJobsForBenchmarking js start u =
     (let (p, u1) = processUpdateJobs js start u;
          (q, ps) = async_return p (jobPromises u1)
      in (q, u1\<lparr>jobPromises := ps\<rparr>))"

definition getQuiescencePromise :: "('s, 'db) batching_timeline_updater \<Rightarrow> nat option" where
  "getQuiescencePromise u = promise u"

subsection \<open>shutdown and the worker's messages\<close>

text \<open>
  \<open>worker_shutdown\<close> is \<open>TimelineWorker.shutdown\<close>, and \<open>shutdown\<close> the method of the
  updater that returns what it returns. Both are \<^verbatim>\<open>async\<close>: the promise kept in
  \<open>shutdownPromise\<close> is adopted by the promise that the first method returns, and that
  one by the promise that the caller of the second gets.
\<close>

definition worker_shutdown ::
  "timeline_worker \<Rightarrow> unit promise_store \<Rightarrow> nat \<times> timeline_worker \<times> unit promise_store" where
  "worker_shutdown w ps =
     (case shutdownPromise w of
        Some p \<Rightarrow> (let (q, ps') = async_return p ps in (q, w, ps'))
      | None \<Rightarrow>
          (let (p, ps1) = new_promise ps;
               w1 = w\<lparr>shutdownPromise := Some p, shutdownResolve := Some p\<rparr>;
               w2 = w1\<lparr>posted := posted w1 @ [Exit]\<rparr>;
               (q, ps2) = async_return p ps1
           in (q, w2, ps2)))"

definition shutdown ::
  "('s, 'db) batching_timeline_updater \<Rightarrow> nat \<times> ('s, 'db) batching_timeline_updater" where
  "shutdown u =
     (let (p, w, ps) = worker_shutdown (worker u) (voidPromises u);
          (q, ps') = async_return p ps
      in (q, u\<lparr>worker := w, voidPromises := ps'\<rparr>))"

text \<open>
  \<open>processResponse\<close> is the handler of the worker's messages. It does not await
  \<open>receiveResults\<close>, whose outcome is dropped.
\<close>

definition processResponse ::
  "('s, 'db) record_timeline \<Rightarrow> 's worker_response \<Rightarrow>
   ('s, 'db) batching_timeline_updater \<Rightarrow> ('s, 'db) batching_timeline_updater" where
  "processResponse recordTimeline message u =
     (case message of
        Exiting \<Rightarrow>
          (let u1 = u\<lparr>worker := (worker u)\<lparr>terminateCalled := True\<rparr>\<rparr> in
           case shutdownResolve (worker u1) of
             Some p \<Rightarrow> u1\<lparr>voidPromises := resolve p () (voidPromises u1)\<rparr>
           | None \<Rightarrow> u1)
      | Results r \<Rightarrow> snd (receiveResults recordTimeline r u))"

subsection \<open>Sequences of operations\<close>

text \<open>
  The public methods of the updater and the handlers that its worker has registered for
  the messages, the errors and the exit of the thread, as the operations of a run that
  starts from the constructor's state.
\<close>

datatype 's operation =
    AddValues int int int "real option list"
  | SubmitUpdateJobs real
  | ReceiveResults "'s compute_results"
  | ConsumeUpdateJobsForBenchmarking
  | ProcessUpdateJobsForBenchmarking "compute_job list" real
  | Shutdown
  | ProcessResponse "'s worker_response"
  | WorkerError
  | WorkerExit int

fun perform ::
  "('s, 'db) record_timeline \<Rightarrow> 's operation \<Rightarrow>
   ('s, 'db) batching_timeline_updater \<Rightarrow> ('s, 'db) batching_timeline_updater" where
  "perform rt (AddValues run trial crit vs) u = addValues run trial crit vs u"
| "perform rt (SubmitUpdateJobs now) u = snd (submitUpdateJobs now u)"
| "perform rt (ReceiveResults r) u = snd (receiveResults rt r u)"
| "perform rt ConsumeUpdateJobsForBenchmarking u = snd (consumeUpdateJobsForBenchmarking u)"
| "perform rt (ProcessUpdateJobsForBenchmarking js start) u =
     snd (processUpdateJobsForBenchmarking js start u)"
| "perform rt Shutdown u = snd (shutdown u)"
| "perform rt (ProcessResponse message) u = processResponse rt message u"
| "perform rt WorkerError u = u\<lparr>worker := on_error (worker u)\<rparr>"
| "perform rt (WorkerExit exitCode) u = u\<lparr>worker := on_exit exitCode (worker u)\<rparr>"

fun perform_all ::
  "('s, 'db) record_timeline \<Rightarrow> 's operation list \<Rightarrow>
   ('s, 'db) batching_timeline_updater \<Rightarrow> ('s, 'db) batching_timeline_updater" where
  "perform_all rt [] u = u"
| "perform_all rt (x # xs) u = perform_all rt xs (perform rt x u)"

text \<open>A sequence of \<open>addValues\<close> calls, each with its four arguments.\<close>

fun addValues_calls ::
  "(int \<times> int \<times> int \<times> real option list) list \<Rightarrow>
   ('s, 'db) batching_timeline_updater \<Rightarrow> ('s, 'db) batching_timeline_updater" where
  "addValues_calls [] u = u"
| "addValues_calls ((run, trial, crit, vs) # calls) u =
     addValues_calls calls (addValues run trial crit vs u)"

text \<open>
  The non-null elements of a values argument, and their concatenation, in call order, over
  the calls made with one key.
\<close>

fun non_null :: "'a option list \<Rightarrow> 'a list" where
  "non_null [] = []"
| "non_null (None # vs) = non_null vs"
| "non_null (Some v # vs) = v # non_null vs"

definition values_for ::
  "int \<Rightarrow> int \<Rightarrow> int \<Rightarrow> (int \<times> int \<times> int \<times> real option list) list \<Rightarrow> real list" where
  "values_for run trial crit calls =
     concat (map (\<lambda>(r, t, c, vs). non_null vs)
       (filter (\<lambda>(r, t, c, vs). r = run \<and> t = trial \<and> c = crit) calls))"

text \<open>
  The result batches that a sequence of operations hands to \<open>receiveResults\<close>, directly or
  through the handler of the worker's messages; the outcomes of these calls of
  \<open>receiveResults\<close>; the in-flight counter after each operation of a sequence; and the
  requests posted to the worker so far.
\<close>

fun batch_of :: "'s operation \<Rightarrow> 's compute_results list" where
  "batch_of (ReceiveResults r) = [r]"
| "batch_of (ProcessResponse (Results r)) = [r]"
| "batch_of _ = []"

definition batches_of :: "'s operation list \<Rightarrow> 's compute_results list" where
  "batches_of ops = concat (map batch_of ops)"

fun outcomes ::
  "('s, 'db) record_timeline \<Rightarrow> 's operation list \<Rightarrow>
   ('s, 'db) batching_timeline_updater \<Rightarrow> outcome list" where
  "outcomes rt [] u = []"
| "outcomes rt (x # xs) u =
     map (\<lambda>r. fst (receiveResults rt r u)) (batch_of x) @ outcomes rt xs (perform rt x u)"

fun counter_after ::
  "('s, 'db) record_timeline \<Rightarrow> 's operation list \<Rightarrow>
   ('s, 'db) batching_timeline_updater \<Rightarrow> int list" where
  "counter_after rt [] u = []"
| "counter_after rt (x # xs) u =
     activeRequests (perform rt x u) # counter_after rt xs (perform rt x u)"

definition requests_posted :: "('s, 'db) batching_timeline_updater \<Rightarrow> worker_request list" where
  "requests_posted u = filter (\<lambda>m. m \<noteq> Exit) (posted (worker u))"

text \<open>How often a sequence of counter values arrives at zero from a value that is not zero.\<close>

fun returns_to_zero :: "int list \<Rightarrow> nat" where
  "returns_to_zero (a # b # cs) =
     (if a \<noteq> 0 \<and> b = 0 then 1 else 0) + returns_to_zero (b # cs)"
| "returns_to_zero _ = 0"

text \<open>
  The identity of a job, and the well-formedness of the table of pending jobs: the keys
  of the table are distinct, every job is stored under the key made of its own three
  identifiers, and no job has an empty array of values.
\<close>

definition job_key :: "compute_job \<Rightarrow> int \<times> int \<times> int" where
  "job_key j = (trialId j, runId j, criterion j)"

definition table_ok :: "(string, compute_job) js_map \<Rightarrow> bool" where
  "table_ok m \<longleftrightarrow>
     distinct (map fst m) \<and>
     (\<forall>(k, j) \<in> set m. k = job_id (trialId j) (runId j) (criterion j) \<and> dataForCriterion j \<noteq> [])"

text \<open>
  \<open>recordTimeline\<close> called on a result, with the four fields of the result; the database
  after it was called once on every result of a list, in the order of the list, each call
  on the database that the call before it left; and the outcome of the call on the result
  at an index of the list, in this sequence of calls.
\<close>

definition recordTimeline_of ::
  "('s, 'db) record_timeline \<Rightarrow> 'db \<Rightarrow> 's compute_result \<Rightarrow> outcome \<times> 'db" where
  "recordTimeline_of rt d r = rt d (res_runId r) (res_trialId r) (res_criterion r) (stats r)"

definition database_after ::
  "('s, 'db) record_timeline \<Rightarrow> 'db \<Rightarrow> 's compute_result list \<Rightarrow> 'db" where
  "database_after rt d rs = foldl (\<lambda>d r. snd (recordTimeline_of rt d r)) d rs"

definition outcome_at ::
  "('s, 'db) record_timeline \<Rightarrow> 'db \<Rightarrow> 's compute_result list \<Rightarrow> nat \<Rightarrow> outcome" where
  "outcome_at rt d rs i = fst (recordTimeline_of rt (database_after rt d (take i rs)) (rs ! i))"

text \<open>The calls of \<open>recordTimeline\<close> made between a state and a later one.\<close>

definition calls_made ::
  "('s, 'db) batching_timeline_updater \<Rightarrow> ('s, 'db) batching_timeline_updater \<Rightarrow>
   ('s compute_result \<times> bool) list" where
  "calls_made u u1 = drop (length (dbCalls u)) (dbCalls u1)"

text \<open>
  A run of the program keeps its promise stores in order: a promise that was not created
  yet has no value, and the resolvers that the updater and its worker hold are promises
  that were created.
\<close>

definition updater_ok :: "('s, 'db) batching_timeline_updater \<Rightarrow> bool" where
  "updater_ok u \<longleftrightarrow>
     (\<forall>q. fresh (jobPromises u) \<le> q \<longrightarrow> resolution (jobPromises u) q = None) \<and>
     (\<forall>p. resolveJobsPromiseWithNumberOfJobs u = Some p \<longrightarrow> p < fresh (jobPromises u)) \<and>
     (\<forall>q. fresh (voidPromises u) \<le> q \<longrightarrow>
        resolution (voidPromises u) q = None \<and> adopts (voidPromises u) q = None) \<and>
     (\<forall>p. shutdownResolve (worker u) = Some p \<longrightarrow> p < fresh (voidPromises u))"

text \<open>
  A database for the examples: it keeps the criteria of the rows recorded, and rejects a
  row whose criterion is negative.
\<close>

definition example_recordTimeline :: "(unit, int list) record_timeline" where
  "example_recordTimeline d run trial crit st =
     (if crit < 0 then (Rejected, d) else (Fulfilled, d @ [crit]))"

definition example_result :: "int \<Rightarrow> int \<Rightarrow> int \<Rightarrow> unit compute_result" where
  "example_result run trial crit =
     \<lparr>res_runId = run, res_trialId = trial, res_criterion = crit, stats = ()\<rparr>"

text \<open>
  Two pending jobs, and a run in which the two batches that carry their results arrive,
  with values for the next wave arriving between them and a shutdown after them.
\<close>

definition example_updater :: "int \<Rightarrow> (unit, int list) batching_timeline_updater" where
  "example_updater crit =
     perform_all example_recordTimeline
       [AddValues 1 2 3 [Some 1], AddValues 4 5 crit [Some 2, None]]
       (new_BatchingTimelineUpdater [])"

definition example_wave :: "int \<Rightarrow> real \<Rightarrow> unit operation list" where
  "example_wave crit start =
     [ReceiveResults \<lparr>results = [example_result 4 5 crit], res_requestStart = start\<rparr>,
      AddValues 7 8 9 [Some 3],
      ProcessResponse (Results \<lparr>results = [example_result 1 2 3], res_requestStart = start\<rparr>),
      Shutdown]"

text \<open>How many exit messages were posted to the worker.\<close>

definition exits_posted :: "('s, 'db) batching_timeline_updater \<Rightarrow> nat" where
  "exits_posted u = length (filter (\<lambda>m. m = Exit) (posted (worker u)))"

text \<open>Before the first call of shutdown.\<close>

definition not_shut_down :: "('s, 'db) batching_timeline_updater \<Rightarrow> bool" where
  "not_shut_down u \<longleftrightarrow>
     shutdownPromise (worker u) = None \<and> shutdownResolve (worker u) = None \<and> exits_posted u = 0"

text \<open>
  After it: the promise that the first call made is kept, and it has a value exactly when
  the worker's acknowledgement has been handled.
\<close>

definition shutting_down ::
  "nat \<Rightarrow> bool \<Rightarrow> ('s, 'db) batching_timeline_updater \<Rightarrow> bool" where
  "shutting_down p acknowledged u \<longleftrightarrow>
     shutdownPromise (worker u) = Some p \<and> shutdownResolve (worker u) = Some p \<and>
     resolution (voidPromises u) p = (if acknowledged then Some () else None) \<and>
     (acknowledged \<longrightarrow> terminateCalled (worker u)) \<and> exits_posted u = 1 \<and>
     p < fresh (voidPromises u) \<and> adopts (voidPromises u) p = None"

text \<open>
  A promise that a call of \<open>shutdown\<close> has returned: it has adopted a promise that has
  adopted the kept one.
\<close>

definition handle_of :: "'a promise_store \<Rightarrow> nat \<Rightarrow> nat \<Rightarrow> bool" where
  "handle_of ps h p \<longleftrightarrow>
     (case adopts ps h of
        None \<Rightarrow> False
      | Some w \<Rightarrow> adopts ps w = Some p \<and> adopts ps p = None \<and> p < w \<and> w < h \<and> h < fresh ps)"

text \<open>A later store: it has the promises of the earlier one, which have adopted what they had.\<close>

definition later_store :: "'a promise_store \<Rightarrow> 'a promise_store \<Rightarrow> bool" where
  "later_store ps ps' \<longleftrightarrow>
     fresh ps \<le> fresh ps' \<and> (\<forall>q < fresh ps. adopts ps' q = adopts ps q)"

text \<open>A run with a first call of shutdown between two sequences of operations.\<close>

definition example_shutdown ::
  "unit operation list \<Rightarrow> unit operation list \<Rightarrow> (unit, int list) batching_timeline_updater" where
  "example_shutdown before later =
     perform_all example_recordTimeline later
       (snd (shutdown (perform_all example_recordTimeline before (new_BatchingTimelineUpdater []))))"

section \<open>Collating measurements (collateMeasurements)\<close>

subsection \<open>Arrays with holes\<close>

text \<open>
  A JavaScript array is a length and the elements that were assigned. Assigning at an
  array index (an integer from 0 up to \<open>2\<^sup>3\<^sup>2 - 2\<close>) at or beyond the length extends the
  array, and the slots in between stay empty; assigning under any other number stores a
  property and leaves the length alone.
\<close>

record 'a js_array =
  alength :: nat
  aelems :: "int \<rightharpoonup> 'a"

definition empty_array :: "'a js_array" where
  "empty_array = \<lparr>alength = 0, aelems = Map.empty\<rparr>"

definition is_index :: "int \<Rightarrow> bool" where
  "is_index i \<longleftrightarrow> 0 \<le> i \<and> i < 2 ^ 32 - 1"

definition array_set :: "'a js_array \<Rightarrow> int \<Rightarrow> 'a \<Rightarrow> 'a js_array" where
  "array_set a i v =
     \<lparr>alength = (if is_index i then max (alength a) (nat i + 1) else alength a),
      aelems = (aelems a)(i \<mapsto> v)\<rparr>"

text \<open>The slots of an array from 0 to its length, \<open>None\<close> for an empty slot.\<close>

definition to_list :: "'a js_array \<Rightarrow> 'a option list" where
  "to_list a = map (\<lambda>i. aelems a (int i)) [0..<alength a]"

subsection \<open>Rows and the collated structure\<close>

record measurement_data =
  expid :: int
  runid :: int
  trialid :: int
  commitid :: string
  bench :: string
  exe :: string
  suite :: string
  cmdline :: string
  varvalue :: "string option"
  cores :: "string option"
  inputsize :: "string option"
  extraargs :: "string option"
  invocation :: int
  iteration :: int
  warmup :: "int option"
  row_criterion :: string
  row_unit :: string
  row_value :: real
  envid :: int

record criterion_data =
  name :: string
  unit :: string

record run_settings =
  rs_cmdline :: string
  varValue :: "string option"
  rs_cores :: "string option"
  inputSize :: "string option"
  extraArgs :: "string option"
  rs_warmup :: "int option"
  simplifiedCmdline :: string

record measurements =
  m_criterion :: criterion_data
  m_values :: "real js_array js_array"
  envId :: int
  commitId :: string
  runSettings :: run_settings
  m_runId :: int
  m_trialId :: int
  expId :: int

record processed_result =
  pr_exe :: string
  pr_suite :: string
  pr_bench :: string
  measurements :: "measurements list"

text \<open>
  \<open>criteria\<close> is a plain object used as a record: its properties in the order in which
  they were created. An assignment under the name \<^verbatim>\<open>__proto__\<close> sets the prototype of
  the object and creates no property.
\<close>

definition object_set :: "(string, 'v) js_map \<Rightarrow> string \<Rightarrow> 'v \<Rightarrow> (string, 'v) js_map" where
  "object_set obj k v = (if k = ''__proto__'' then obj else map_set obj k v)"

record results_by_benchmark =
  benchmarks :: "(string, processed_result) js_map"
  criteria :: "(string, criterion_data) js_map"

type_synonym results_by_exe_suite_benchmark =
  "(string, (string, results_by_benchmark) js_map) js_map"

subsection \<open>The pass over the rows\<close>

text \<open>The three maps of \<open>collateMeasurements\<close>.\<close>

record collation =
  byExeSuiteBench :: results_by_exe_suite_benchmark
  runSettings_map :: "(string, run_settings) js_map"
  criteria_map :: "(string, criterion_data) js_map"

definition new_collation :: collation where
  "new_collation = \<lparr>byExeSuiteBench = [], runSettings_map = [], criteria_map = []\<rparr>"

definition matches :: "measurements \<Rightarrow> measurement_data \<Rightarrow> bool" where
  "matches mm row \<longleftrightarrow>
     envId mm = envid row \<and> commitId mm = commitid row \<and> m_runId mm = runid row \<and>
     m_trialId mm = trialid row \<and> name (m_criterion mm) = row_criterion row"

text \<open>\<open>findMeasurements\<close>: the position of the first series that matches the row.\<close>

fun find_position :: "('a \<Rightarrow> bool) \<Rightarrow> 'a list \<Rightarrow> nat option" where
  "find_position P [] = None"
| "find_position P (x # xs) =
     (if P x then Some 0 else map_option Suc (find_position P xs))"

definition findMeasurements :: "processed_result \<Rightarrow> measurement_data \<Rightarrow> nat option" where
  "findMeasurements benchResult row =
     find_position (\<lambda>mm. matches mm row) (measurements benchResult)"

text \<open>
  \<open>findOrConstructProcessedResult\<close> returns the result of the row's benchmark, and the
  record of the suite with that result in it.
\<close>

definition findOrConstructProcessedResult ::
  "results_by_benchmark \<Rightarrow> measurement_data \<Rightarrow> processed_result \<times> results_by_benchmark" where
  "findOrConstructProcessedResult forSuiteByBench row =
     (case map_get (benchmarks forSuiteByBench) (bench row) of
        Some benchResult \<Rightarrow> (benchResult, forSuiteByBench)
      | None \<Rightarrow>
          (let benchResult =
             \<lparr>pr_exe = exe row, pr_suite = suite row, pr_bench = bench row, measurements = []\<rparr>
           in (benchResult,
               forSuiteByBench\<lparr>benchmarks :=
                 map_set (benchmarks forSuiteByBench) (bench row) benchResult\<rparr>)))"

text \<open>
  \<open>findOrConstructMeasurements\<close> returns the position of the row's series in the result
  of the benchmark, with that result and the record of the suite as the function left
  them.
\<close>

definition findOrConstructMeasurements ::
  "processed_result \<Rightarrow> measurement_data \<Rightarrow> criterion_data \<Rightarrow> run_settings \<Rightarrow>
   results_by_benchmark \<Rightarrow> nat \<times> processed_result \<times> results_by_benchmark" where
  "findOrConstructMeasurements benchResult row crit runSetting forSuiteByBench =
     (case findMeasurements benchResult row of
        Some i \<Rightarrow> (i, benchResult, forSuiteByBench)
      | None \<Rightarrow>
          (let m = \<lparr>m_criterion = crit, m_values = empty_array, envId = envid row,
                    commitId = commitid row, runSettings = runSetting, m_runId = runid row,
                    m_trialId = trialid row, expId = expid row\<rparr>
           in (length (measurements benchResult),
               benchResult\<lparr>measurements := measurements benchResult @ [m]\<rparr>,
               forSuiteByBench\<lparr>criteria :=
                 object_set (criteria forSuiteByBench) (name crit) crit\<rparr>)))"

text \<open>
  The two assignments at the end of the loop body: an empty array is put at the
  invocation's slot when nothing is there, then the value is put into that array at the
  iteration's slot.
\<close>

definition store_value ::
  "real js_array js_array \<Rightarrow> int \<Rightarrow> int \<Rightarrow> real \<Rightarrow> real js_array js_array" where
  "store_value vals i j v =
     (case aelems vals i of
        None \<Rightarrow>
          (let vals1 = array_set vals i empty_array
           in vals1\<lparr>aelems := (aelems vals1)(i \<mapsto> array_set empty_array j v)\<rparr>)
      | Some row_i \<Rightarrow> vals\<lparr>aelems := (aelems vals)(i \<mapsto> array_set row_i j v)\<rparr>)"

text \<open>The body of the loop. \<open>simplify\<close> is \<open>simplifyCmdline\<close>, a function of shared/util.\<close>

definition collate_row ::
  "(string \<Rightarrow> string) \<Rightarrow> measurement_data \<Rightarrow> collation \<Rightarrow> collation" where
  "collate_row simplify row st =
     (let c = row_criterion row @ ''|'' @ row_unit row;
          (crit, criteria1) =
            (case map_get (criteria_map st) c of
               Some x \<Rightarrow> (x, criteria_map st)
             | None \<Rightarrow>
                 (let x = \<lparr>name = row_criterion row, unit = row_unit row\<rparr>
                  in (x, map_set (criteria_map st) c x)));
          (runSetting, runSettings1) =
            (case map_get (runSettings_map st) (cmdline row) of
               Some x \<Rightarrow> (x, runSettings_map st)
             | None \<Rightarrow>
                 (let x = \<lparr>rs_cmdline = cmdline row, varValue = varvalue row,
                           rs_cores = cores row, inputSize = inputsize row,
                           extraArgs = extraargs row, rs_warmup = warmup row,
                           simplifiedCmdline = simplify (cmdline row)\<rparr>
                  in (x, map_set (runSettings_map st) (cmdline row) x)));
          forExeBySuiteBench =
            (case map_get (byExeSuiteBench st) (exe row) of Some x \<Rightarrow> x | None \<Rightarrow> []);
          forSuiteByBench =
            (case map_get forExeBySuiteBench (suite row) of
               Some x \<Rightarrow> x
             | None \<Rightarrow> \<lparr>benchmarks = [], criteria = []\<rparr>);
          (benchResult, forSuiteByBench1) = findOrConstructProcessedResult forSuiteByBench row;
          (i, benchResult1, forSuiteByBench2) =
            findOrConstructMeasurements benchResult row crit runSetting forSuiteByBench1;
          m = measurements benchResult1 ! i;
          m1 = m\<lparr>m_values :=
                 store_value (m_values m) (invocation row - 1) (iteration row - 1) (row_value row)\<rparr>;
          benchResult2 = benchResult1\<lparr>measurements := (measurements benchResult1)[i := m1]\<rparr>;
          forSuiteByBench3 =
            forSuiteByBench2\<lparr>benchmarks :=
              map_set (benchmarks forSuiteByBench2) (bench row) benchResult2\<rparr>
      in \<lparr>byExeSuiteBench =
            map_set (byExeSuiteBench st) (exe row)
              (map_set forExeBySuiteBench (suite row) forSuiteByBench3),
          runSettings_map = runSettings1,
          criteria_map = criteria1\<rparr>)"

fun collate_rows ::
  "(string \<Rightarrow> string) \<Rightarrow> measurement_data list \<Rightarrow> collation \<Rightarrow> collation" where
  "collate_rows simplify [] st = st"
| "collate_rows simplify (row # data) st = collate_rows simplify data (collate_row simplify row st)"

subsection \<open>The sorting pass\<close>

text \<open>\<^verbatim>\<open>new Map(entries)\<close>: the entries are set one after the other.\<close>

definition new_Map :: "('k \<times> 'v) list \<Rightarrow> ('k, 'v) js_map" where
  "new_Map entries = fold (\<lambda>(k, v) m. map_set m k v) entries []"

text \<open>
  The comparator of the three sorts is \<^verbatim>\<open>localeCompare\<close> with the numeric option: it
  compares the collation keys of the two names. The key of a name is a parameter \<open>ck\<close>,
  into any linear order; the sort of an array is stable.
\<close>

definition sort_entries :: "(string \<Rightarrow> 'o::linorder) \<Rightarrow> (string \<times> 'v) list \<Rightarrow> (string \<times> 'v) list" where
  "sort_entries ck entries = sort_key (\<lambda>e. ck (fst e)) entries"

definition sortResultsAlphabetically ::
  "(string \<Rightarrow> 'o::linorder) \<Rightarrow> results_by_exe_suite_benchmark \<Rightarrow>
   results_by_exe_suite_benchmark" where
  "sortResultsAlphabetically ck byExe =
     new_Map (map (\<lambda>(e, bySuiteBench).
         (e, new_Map (map (\<lambda>(s, byBench).
               (s, byBench\<lparr>benchmarks := new_Map (sort_entries ck (benchmarks byBench))\<rparr>))
             (sort_entries ck bySuiteBench))))
       (sort_entries ck byExe))"

definition collateMeasurements ::
  "(string \<Rightarrow> 'o::linorder) \<Rightarrow> (string \<Rightarrow> string) \<Rightarrow> measurement_data list \<Rightarrow>
   results_by_exe_suite_benchmark" where
  "collateMeasurements ck simplify data =
     sortResultsAlphabetically ck (byExeSuiteBench (collate_rows simplify data new_collation))"

subsection \<open>What the claims speak of\<close>

text \<open>
  The identity of a series, and the leaves of a collated structure: every series with the
  execution unit, suite and benchmark it stands under, its identity and its grid of
  values.
\<close>

type_synonym series_id = "int \<times> string \<times> int \<times> int \<times> string"

type_synonym leaf_id = "string \<times> string \<times> string \<times> series_id"

definition series_key :: "measurements \<Rightarrow> series_id" where
  "series_key m = (envId m, commitId m, m_runId m, m_trialId m, name (m_criterion m))"

definition leaves ::
  "results_by_exe_suite_benchmark \<Rightarrow> (leaf_id \<times> real js_array js_array) list" where
  "leaves byExe =
     concat (map (\<lambda>(e, bySuite).
       concat (map (\<lambda>(s, byBench).
         concat (map (\<lambda>(b, benchResult).
           map (\<lambda>m. ((e, s, b, series_key m), m_values m)) (measurements benchResult))
           (benchmarks byBench)))
         bySuite))
       byExe)"

definition leaf_content ::
  "results_by_exe_suite_benchmark \<Rightarrow> (leaf_id \<times> real js_array js_array) set" where
  "leaf_content byExe = set (leaves byExe)"

text \<open>The series a row belongs to, and the cell of the grid it is written to.\<close>

definition row_series :: "measurement_data \<Rightarrow> leaf_id" where
  "row_series row =
     (exe row, suite row, bench row,
      (envid row, commitid row, runid row, trialid row, row_criterion row))"

definition row_cell :: "measurement_data \<Rightarrow> leaf_id \<times> int \<times> int" where
  "row_cell row = (row_series row, invocation row, iteration row)"

text \<open>The grid that a sequence of rows of one series writes, starting from an empty one.\<close>

definition grid_of :: "measurement_data list \<Rightarrow> real js_array js_array" where
  "grid_of data =
     fold (\<lambda>row vals. store_value vals (invocation row - 1) (iteration row - 1) (row_value row))
       data empty_array"

text \<open>A grid as nested lists, with \<open>None\<close> for an empty slot.\<close>

definition grid_list :: "real js_array js_array \<Rightarrow> real option list option list" where
  "grid_list vals = map (map_option to_list) (to_list vals)"

text \<open>The elements of a list in the order of their first occurrence.\<close>

definition first_seen :: "'a list \<Rightarrow> 'a list" where
  "first_seen xs = rev (remdups (rev xs))"

text \<open>
  The keys of an object in the order in which the language enumerates them: the keys that
  are array indices (a decimal number below \<open>2\<^sup>3\<^sup>2 - 1\<close> as it is printed) first, by their
  value, then the other keys in the order of their creation.
\<close>

definition digits_value :: "string \<Rightarrow> nat" where
  "digits_value s = fold (\<lambda>c n. 10 * n + (of_char c - 48)) s 0"

definition is_array_index :: "string \<Rightarrow> bool" where
  "is_array_index s \<longleftrightarrow> string_of_nat (digits_value s) = s \<and> digits_value s < 2 ^ 32 - 1"

definition object_keys :: "(string, 'v) js_map \<Rightarrow> string list" where
  "object_keys obj =
     sort_key digits_value (filter is_array_index (map fst obj)) @
     filter (\<lambda>k. \<not> is_array_index k) (map fst obj)"

text \<open>
  A collation key for the examples: a run of digits counts as the number it spells and
  sorts before any other character; the other characters sort by their code.
\<close>

fun numeric_key_from :: "nat option \<Rightarrow> string \<Rightarrow> (nat \<times> nat) list" where
  "numeric_key_from None [] = []"
| "numeric_key_from (Some n) [] = [(0, n)]"
| "numeric_key_from acc (c # cs) =
     (if 48 \<le> (of_char c :: nat) \<and> (of_char c :: nat) \<le> 57 then
        numeric_key_from
          (Some (10 * (case acc of None \<Rightarrow> 0 | Some n \<Rightarrow> n) + (of_char c - 48))) cs
      else
        (case acc of None \<Rightarrow> [] | Some n \<Rightarrow> [(0, n)]) @
        (1, of_char c) # numeric_key_from None cs)"

definition numeric_key :: "string \<Rightarrow> (nat \<times> nat) list" where
  "numeric_key s = numeric_key_from None s"

text \<open>A row for the examples, and the same row at another cell or with other names.\<close>

definition example_row :: measurement_data where
  "example_row =
     \<lparr>expid = 1, runid = 1, trialid = 1, commitid = ''c1'', bench = ''B'', exe = ''A'',
      suite = ''S'', cmdline = ''run B'', varvalue = None, cores = None, inputsize = None,
      extraargs = None, invocation = 1, iteration = 1, warmup = None,
      row_criterion = ''total'', row_unit = ''ms'', row_value = 10, envid = 1\<rparr>"

definition at_cell :: "int \<Rightarrow> int \<Rightarrow> real \<Rightarrow> measurement_data \<Rightarrow> measurement_data" where
  "at_cell i j v row = row\<lparr>invocation := i, iteration := j, row_value := v\<rparr>"

subsection \<open>Looking into the structure\<close>

definition lookup2 ::
  "results_by_exe_suite_benchmark \<Rightarrow> string \<Rightarrow> string \<Rightarrow> results_by_benchmark option" where
  "lookup2 byExe e s = (case map_get byExe e of None \<Rightarrow> None | Some bySuite \<Rightarrow> map_get bySuite s)"

definition lookup3 ::
  "results_by_exe_suite_benchmark \<Rightarrow> string \<Rightarrow> string \<Rightarrow> string \<Rightarrow> processed_result option" where
  "lookup3 byExe e s b =
     (case lookup2 byExe e s of None \<Rightarrow> None | Some byBench \<Rightarrow> map_get (benchmarks byBench) b)"

text \<open>The criterion object that the loop body uses for a row.\<close>

definition criterion_for :: "collation \<Rightarrow> measurement_data \<Rightarrow> criterion_data" where
  "criterion_for st row =
     (case map_get (criteria_map st) (row_criterion row @ ''|'' @ row_unit row) of
        Some x \<Rightarrow> x
      | None \<Rightarrow> \<lparr>name = row_criterion row, unit = row_unit row\<rparr>)"

definition runSetting_for :: "(string \<Rightarrow> string) \<Rightarrow> collation \<Rightarrow> measurement_data \<Rightarrow> run_settings" where
  "runSetting_for simplify st row =
     (case map_get (runSettings_map st) (cmdline row) of
        Some x \<Rightarrow> x
      | None \<Rightarrow>
          \<lparr>rs_cmdline = cmdline row, varValue = varvalue row, rs_cores = cores row,
           inputSize = inputsize row, extraArgs = extraargs row, rs_warmup = warmup row,
           simplifiedCmdline = simplify (cmdline row)\<rparr>)"

text \<open>The series of a row within its benchmark.\<close>

definition row_series_id :: "measurement_data \<Rightarrow> series_id" where
  "row_series_id row = (envid row, commitid row, runid row, trialid row, row_criterion row)"

text \<open>All three levels of maps have distinct keys.\<close>

definition distinct_keys :: "results_by_exe_suite_benchmark \<Rightarrow> bool" where
  "distinct_keys byExe \<longleftrightarrow>
     distinct (map fst byExe) \<and>
     (\<forall>(e, bySuite) \<in> set byExe.
        distinct (map fst bySuite) \<and>
        (\<forall>(s, byBench) \<in> set bySuite. distinct (map fst (benchmarks byBench))))"

text \<open>
  What the pass has made of the rows it has seen, for the result of one benchmark: its
  series have distinct identities, each holds the grid written by the rows of the series
  in their order, and every row of the benchmark has its series.
\<close>

definition result_of_rows ::
  "string \<Rightarrow> string \<Rightarrow> string \<Rightarrow> processed_result \<Rightarrow> measurement_data list \<Rightarrow> bool" where
  "result_of_rows e s b benchResult data \<longleftrightarrow>
     distinct (map series_key (measurements benchResult)) \<and>
     (\<forall>m \<in> set (measurements benchResult).
        m_values m = grid_of (filter (\<lambda>row. row_series row = (e, s, b, series_key m)) data) \<and>
        (e, s, b, series_key m) \<in> row_series ` set data) \<and>
     (\<forall>row \<in> set data. exe row = e \<and> suite row = s \<and> bench row = b \<longrightarrow>
        row_series_id row \<in> series_key ` set (measurements benchResult))"

definition no_bar :: "string \<Rightarrow> bool" where
  "no_bar s \<longleftrightarrow> CHR ''|'' \<notin> set s"

text \<open>
  The objects in the map of criteria stand under the key made of their own name and unit,
  and their names have no bar.
\<close>

definition criteria_ok :: "collation \<Rightarrow> bool" where
  "criteria_ok st \<longleftrightarrow>
     (\<forall>(k, x) \<in> set (criteria_map st). k = name x @ ''|'' @ unit x \<and> no_bar (name x))"

text \<open>
  The criterion names of the rows of a suite that make a property of the criteria record,
  and the record of every suite holding them in the order of their first occurrence.
\<close>

definition recorded_names :: "string \<Rightarrow> string \<Rightarrow> measurement_data list \<Rightarrow> string list" where
  "recorded_names e s data =
     filter (\<lambda>c. c \<noteq> ''__proto__'')
       (map row_criterion (filter (\<lambda>row. exe row = e \<and> suite row = s) data))"

definition criteria_in_order :: "results_by_exe_suite_benchmark \<Rightarrow> measurement_data list \<Rightarrow> bool" where
  "criteria_in_order byExe data \<longleftrightarrow>
     (\<forall>e s byBench. lookup2 byExe e s = Some byBench \<longrightarrow>
        map fst (criteria byBench) = first_seen (recorded_names e s data))"

definition collation_of_rows :: "collation \<Rightarrow> measurement_data list \<Rightarrow> bool" where
  "collation_of_rows st data \<longleftrightarrow>
     distinct_keys (byExeSuiteBench st) \<and>
     criteria_ok st \<and>
     (\<forall>e s b benchResult. lookup3 (byExeSuiteBench st) e s b = Some benchResult \<longrightarrow>
        result_of_rows e s b benchResult data) \<and>
     (\<forall>row \<in> set data. lookup3 (byExeSuiteBench st) (exe row) (suite row) (bench row) \<noteq> None) \<and>
     criteria_in_order (byExeSuiteBench st) data"

text \<open>
  The maps of the row's execution unit and of its suite as the loop body finds them, or
  as it creates them.
\<close>

definition forExe_before :: "collation \<Rightarrow> measurement_data \<Rightarrow> (string, results_by_benchmark) js_map" where
  "forExe_before st row =
     (case map_get (byExeSuiteBench st) (exe row) of Some x \<Rightarrow> x | None \<Rightarrow> [])"

definition forSuite_before :: "collation \<Rightarrow> measurement_data \<Rightarrow> results_by_benchmark" where
  "forSuite_before st row =
     (case map_get (forExe_before st row) (suite row) of
        Some x \<Rightarrow> x | None \<Rightarrow> \<lparr>benchmarks = [], criteria = []\<rparr>)"

text \<open>
  The result of the row's benchmark and the criteria of its suite, as the loop body finds
  them and as it leaves them.
\<close>

definition result_before :: "collation \<Rightarrow> measurement_data \<Rightarrow> processed_result" where
  "result_before st row =
     (case lookup3 (byExeSuiteBench st) (exe row) (suite row) (bench row) of
        Some benchResult \<Rightarrow> benchResult
      | None \<Rightarrow>
          \<lparr>pr_exe = exe row, pr_suite = suite row, pr_bench = bench row, measurements = []\<rparr>)"

definition series_after ::
  "(string \<Rightarrow> string) \<Rightarrow> collation \<Rightarrow> measurement_data \<Rightarrow> measurements list" where
  "series_after simplify st row =
     (let ms = measurements (result_before st row) in
      case find_position (\<lambda>mm. matches mm row) ms of
        Some i \<Rightarrow>
          ms[i := (ms ! i)\<lparr>m_values :=
            store_value (m_values (ms ! i)) (invocation row - 1) (iteration row - 1) (row_value row)\<rparr>]
      | None \<Rightarrow>
          ms @ [\<lparr>m_criterion = criterion_for st row,
                 m_values = store_value empty_array (invocation row - 1) (iteration row - 1)
                   (row_value row),
                 envId = envid row, commitId = commitid row,
                 runSettings = runSetting_for simplify st row, m_runId = runid row,
                 m_trialId = trialid row, expId = expid row\<rparr>])"

definition criteria_before :: "collation \<Rightarrow> measurement_data \<Rightarrow> (string, criterion_data) js_map" where
  "criteria_before st row =
     (case lookup2 (byExeSuiteBench st) (exe row) (suite row) of
        Some byBench \<Rightarrow> criteria byBench | None \<Rightarrow> [])"

definition criteria_after :: "collation \<Rightarrow> measurement_data \<Rightarrow> (string, criterion_data) js_map" where
  "criteria_after st row =
     (case find_position (\<lambda>mm. matches mm row) (measurements (result_before st row)) of
        Some i \<Rightarrow> criteria_before st row
      | None \<Rightarrow>
          object_set (criteria_before st row) (name (criterion_for st row)) (criterion_for st row))"

text \<open>What the sorting pass makes of a suite, and of the suites of an execution unit.\<close>

definition sorted_benchmarks :: "(string \<Rightarrow> 'o::linorder) \<Rightarrow> results_by_benchmark \<Rightarrow> results_by_benchmark" where
  "sorted_benchmarks ck byBench = byBench\<lparr>benchmarks := sort_entries ck (benchmarks byBench)\<rparr>"

definition sorted_suites ::
  "(string \<Rightarrow> 'o::linorder) \<Rightarrow> (string, results_by_benchmark) js_map \<Rightarrow>
   (string, results_by_benchmark) js_map" where
  "sorted_suites ck bySuite =
     map (\<lambda>(s, byBench). (s, sorted_benchmarks ck byBench)) (sort_entries ck bySuite)"

text \<open>The two assignments of \<open>store_value\<close> as one record.\<close>

definition row_at :: "'a js_array js_array \<Rightarrow> int \<Rightarrow> 'a js_array" where
  "row_at vals i = (case aelems vals i of None \<Rightarrow> empty_array | Some a \<Rightarrow> a)"

definition length_with :: "'a js_array js_array \<Rightarrow> int \<Rightarrow> nat" where
  "length_with vals i =
     (if aelems vals i = None \<and> is_index i then max (alength vals) (nat i + 1) else alength vals)"

definition example_bench :: "string \<Rightarrow> string \<Rightarrow> measurement_data" where
  "example_bench b c = example_row\<lparr>bench := b, row_criterion := c\<rparr>"


section \<open>Properties of the timeline updater\<close>

lemma digit_char_in: "d < 10 \<Longrightarrow> digit_char d \<in> set ''0123456789''"
  unfolding digit_char_def by (rule nth_mem) simp

lemma digit_char_inj: "a < 10 \<Longrightarrow> b < 10 \<Longrightarrow> digit_char a = digit_char b \<Longrightarrow> a = b"
proof -
  assume a: "a < 10" and b: "b < 10" and e: "digit_char a = digit_char b"
  have d: "distinct ''0123456789''" by simp
  have "a < length ''0123456789''" "b < length ''0123456789''" using a b by simp_all
  with d e show ?thesis
    unfolding digit_char_def by (simp only: nth_eq_iff_index_eq)
qed

lemma digit_char_not_minus: "d < 10 \<Longrightarrow> digit_char d \<noteq> CHR ''-''"
  using digit_char_in [of d] by auto

lemma string_of_nat_ne: "string_of_nat n \<noteq> []"
  by (subst string_of_nat.simps) simp

lemma string_of_nat_no_minus: "CHR ''-'' \<notin> set (string_of_nat n)"
proof (induction n rule: string_of_nat.induct)
  case (1 n)
  show ?case
  proof (cases "n < 10")
    case True
    then show ?thesis
      by (subst string_of_nat.simps) (auto dest: digit_char_not_minus)
  next
    case False
    then have "CHR ''-'' \<notin> set (string_of_nat (n div 10))" using 1 by simp
    moreover have "digit_char (n mod 10) \<noteq> CHR ''-''" by (rule digit_char_not_minus) simp
    ultimately show ?thesis using False
      by (subst string_of_nat.simps) auto
  qed
qed

lemma string_of_nat_inj: "string_of_nat a = string_of_nat b \<Longrightarrow> a = b"
proof (induction a arbitrary: b rule: string_of_nat.induct)
  case (1 n)
  show ?case
  proof (cases "n < 10")
    case True
    then have l: "string_of_nat n = [digit_char n]" by (subst string_of_nat.simps) simp
    show ?thesis
    proof (cases "b < 10")
      case True
      then have "string_of_nat b = [digit_char b]" by (subst string_of_nat.simps) simp
      with l "1.prems" \<open>n < 10\<close> True show ?thesis by (auto dest: digit_char_inj)
    next
      case False
      then have "string_of_nat b = string_of_nat (b div 10) @ [digit_char (b mod 10)]"
        by (subst string_of_nat.simps) simp
      with l "1.prems" have "string_of_nat (b div 10) = []" by simp
      then show ?thesis using string_of_nat_ne by blast
    qed
  next
    case False
    then have l: "string_of_nat n = string_of_nat (n div 10) @ [digit_char (n mod 10)]"
      by (subst string_of_nat.simps) simp
    show ?thesis
    proof (cases "b < 10")
      case True
      then have "string_of_nat b = [digit_char b]" by (subst string_of_nat.simps) simp
      with l "1.prems" have "string_of_nat (n div 10) = []" by simp
      then show ?thesis using string_of_nat_ne by blast
    next
      case b: False
      then have "string_of_nat b = string_of_nat (b div 10) @ [digit_char (b mod 10)]"
        by (subst string_of_nat.simps) simp
      with l "1.prems" have e: "string_of_nat (n div 10) = string_of_nat (b div 10)"
        and d: "digit_char (n mod 10) = digit_char (b mod 10)" by simp_all
      from e have "n div 10 = b div 10" using "1.IH" False by blast
      moreover from d have "n mod 10 = b mod 10" by (intro digit_char_inj) simp_all
      ultimately show ?thesis by (metis div_mult_mod_eq)
    qed
  qed
qed


lemma split_at_minus:
  "CHR ''-'' \<notin> set a \<Longrightarrow> CHR ''-'' \<notin> set b \<Longrightarrow>
   a @ CHR ''-'' # r = b @ CHR ''-'' # r' \<Longrightarrow> a = b \<and> r = r'"
proof (induction a arbitrary: b)
  case Nil
  then show ?case by (cases b) auto
next
  case (Cons x a)
  then show ?case by (cases b) auto
qed

lemma string_of_nat_hd: "\<exists>x xs. string_of_nat n = x # xs \<and> x \<noteq> CHR ''-''"
  using string_of_nat_ne [of n] string_of_nat_no_minus [of n]
  by (cases "string_of_nat n") auto

lemma string_of_int_inj: "string_of_int i = string_of_int j \<Longrightarrow> i = j"
proof -
  assume e: "string_of_int i = string_of_int j"
  obtain x xs where i: "string_of_nat (nat i) = x # xs" "x \<noteq> CHR ''-''"
    using string_of_nat_hd by blast
  obtain y ys where j: "string_of_nat (nat j) = y # ys" "y \<noteq> CHR ''-''"
    using string_of_nat_hd by blast
  show ?thesis
  proof (cases "i < 0")
    case True
    show ?thesis
    proof (cases "j < 0")
      case j0: True
      with True e have "string_of_nat (nat (- i)) = string_of_nat (nat (- j))"
        by (simp add: string_of_int_def)
      then have "nat (- i) = nat (- j)" by (rule string_of_nat_inj)
      with True j0 show ?thesis by simp
    next
      case False
      with True e j show ?thesis by (simp add: string_of_int_def)
    qed
  next
    case False
    show ?thesis
    proof (cases "j < 0")
      case True
      with False e i show ?thesis by (simp add: string_of_int_def)
    next
      case j0: False
      with False e have "string_of_nat (nat i) = string_of_nat (nat j)"
        by (simp add: string_of_int_def)
      then have "nat i = nat j" by (rule string_of_nat_inj)
      with False j0 show ?thesis by simp
    qed
  qed
qed

lemma string_of_int_prefix:
  "string_of_int i @ CHR ''-'' # r = string_of_int j @ CHR ''-'' # r' \<Longrightarrow> i = j \<and> r = r'"
proof -
  assume e: "string_of_int i @ CHR ''-'' # r = string_of_int j @ CHR ''-'' # r'"
  obtain x xs where i: "string_of_nat (nat i) = x # xs" "x \<noteq> CHR ''-''"
    using string_of_nat_hd by blast
  obtain y ys where j: "string_of_nat (nat j) = y # ys" "y \<noteq> CHR ''-''"
    using string_of_nat_hd by blast
  have "string_of_int i = string_of_int j \<and> r = r'"
  proof (cases "i < 0")
    case True
    show ?thesis
    proof (cases "j < 0")
      case j0: True
      with True e have
        "string_of_nat (nat (- i)) @ CHR ''-'' # r = string_of_nat (nat (- j)) @ CHR ''-'' # r'"
        by (simp add: string_of_int_def)
      then have "string_of_nat (nat (- i)) = string_of_nat (nat (- j)) \<and> r = r'"
        by (rule split_at_minus [OF string_of_nat_no_minus string_of_nat_no_minus])
      with True j0 show ?thesis by (simp add: string_of_int_def)
    next
      case False
      with True e j show ?thesis by (simp add: string_of_int_def)
    qed
  next
    case False
    show ?thesis
    proof (cases "j < 0")
      case True
      with False e i show ?thesis by (simp add: string_of_int_def)
    next
      case j0: False
      with False e have
        "string_of_nat (nat i) @ CHR ''-'' # r = string_of_nat (nat j) @ CHR ''-'' # r'"
        by (simp add: string_of_int_def)
      then have "string_of_nat (nat i) = string_of_nat (nat j) \<and> r = r'"
        by (rule split_at_minus [OF string_of_nat_no_minus string_of_nat_no_minus])
      with False j0 show ?thesis by (simp add: string_of_int_def)
    qed
  qed
  then show ?thesis using string_of_int_inj by blast
qed

lemma job_id_inj:
  "job_id t r c = job_id t' r' c' \<longleftrightarrow> t = t' \<and> r = r' \<and> c = c'"
proof
  assume "job_id t r c = job_id t' r' c'"
  then have e: "string_of_int t @ CHR ''-'' # (string_of_int r @ CHR ''-'' # string_of_int c) =
      string_of_int t' @ CHR ''-'' # (string_of_int r' @ CHR ''-'' # string_of_int c')"
    by (simp add: job_id_def)
  from string_of_int_prefix [OF e] have t: "t = t'"
    and e2: "string_of_int r @ CHR ''-'' # string_of_int c =
      string_of_int r' @ CHR ''-'' # string_of_int c'" by simp_all
  from string_of_int_prefix [OF e2] have "r = r'" "string_of_int c = string_of_int c'"
    by simp_all
  with t show "t = t' \<and> r = r' \<and> c = c'" using string_of_int_inj by blast
next
  assume "t = t' \<and> r = r' \<and> c = c'"
  then show "job_id t r c = job_id t' r' c'" by simp
qed

lemma map_get_map_set:
  "map_get (map_set m k v) k' = (if k = k' then Some v else map_get m k')"
  by (induction m) auto

lemma map_set_present: "k \<in> fst ` set m \<Longrightarrow> map fst (map_set m k v) = map fst m"
  by (induction m) fastforce+

lemma map_set_absent: "k \<notin> fst ` set m \<Longrightarrow> map_set m k v = m @ [(k, v)]"
  by (induction m) auto

lemma map_get_None_iff: "map_get m k = None \<longleftrightarrow> k \<notin> fst ` set m"
  by (induction m) (auto split: if_splits)

lemma map_get_Some_mem: "map_get m k = Some v \<Longrightarrow> (k, v) \<in> set m"
  by (induction m) (auto split: if_splits)

lemma set_map_set_subset: "set (map_set m k v) \<subseteq> insert (k, v) (set m)"
  by (induction m) (auto split: if_splits)

lemma without_missing_non_null: "without_missing vs = non_null vs"
  unfolding without_missing_def by (induction vs rule: non_null.induct) auto

lemma push_present_non_null: "push_present acc vs = acc @ non_null vs"
  by (induction acc vs rule: push_present.induct) auto

lemma addValues_lookup:
  "map_get (requests (addValues r t c vs u)) k =
     (if k = job_id t r c then
        (case map_get (requests u) k of
           Some job \<Rightarrow> Some (job\<lparr>dataForCriterion := dataForCriterion job @ non_null vs\<rparr>)
         | None \<Rightarrow> if non_null vs = [] then None
             else Some \<lparr>runId = r, trialId = t, criterion = c, dataForCriterion = non_null vs\<rparr>)
      else map_get (requests u) k)"
  by (auto simp: addValues_def Let_def map_get_map_set without_missing_non_null
      push_present_non_null split: option.splits)

text \<open>
  C2. For every key (runId, trialId, criterionId) and every sequence of \<open>addValues\<close>
  calls, the job pending under that key afterwards holds the values it held before
  followed by the concatenation, in call order, of the non-null elements of the values
  arguments of the calls made with that key. When no job was pending before, there is a job
  afterwards only if some call with the key had a non-null value: calls whose values are
  all null contribute nothing.
\<close>

theorem addValues_concatenates:
  "map_get (requests (addValues_calls calls u)) (job_id trial run crit) =
     (case map_get (requests u) (job_id trial run crit) of
        Some job \<Rightarrow>
          Some (job\<lparr>dataForCriterion := dataForCriterion job @ values_for run trial crit calls\<rparr>)
      | None \<Rightarrow>
          if values_for run trial crit calls = [] then None
          else Some \<lparr>runId = run, trialId = trial, criterion = crit,
                     dataForCriterion = values_for run trial crit calls\<rparr>)"
proof (induction calls arbitrary: u)
  case Nil
  show ?case by (simp add: values_for_def split: option.splits)
next
  case (Cons call calls)
  obtain r t c vs where call: "call = (r, t, c, vs)" by (cases call) auto
  show ?case
  proof (cases "r = run \<and> t = trial \<and> c = crit")
    case True
    then have v: "values_for run trial crit ((run, trial, crit, vs) # calls) =
        non_null vs @ values_for run trial crit calls"
      by (simp add: values_for_def)
    from True have call': "call = (run, trial, crit, vs)" by (simp add: call)
    show ?thesis
      unfolding call' addValues_calls.simps Cons.IH addValues_lookup v
      by (simp split: option.splits)
  next
    case False
    then have v: "values_for run trial crit ((r, t, c, vs) # calls) =
        values_for run trial crit calls"
      by (auto simp: values_for_def)
    from False have k: "job_id trial run crit \<noteq> job_id t r c"
      by (auto simp: job_id_inj)
    show ?thesis
      unfolding call addValues_calls.simps Cons.IH addValues_lookup v using k
      by (simp split: option.splits)
  qed
qed

theorem addValues_concatenates_witness:
  "map_get (requests (addValues_calls
       [(1, 2, 3, [Some 1.5, None, Some 2]), (7, 2, 3, [Some 9]),
        (1, 2, 3, [None, None]), (1, 2, 3, [Some 4])]
       (new_BatchingTimelineUpdater () :: (unit, unit) batching_timeline_updater)))
     (job_id 2 1 3) =
   Some \<lparr>runId = 1, trialId = 2, criterion = 3, dataForCriterion = [1.5, 2, 4]\<rparr>"
  using addValues_concatenates [of
      "[(1, 2, 3, [Some 1.5, None, Some 2]), (7, 2, 3, [Some 9]),
        (1, 2, 3, [None, None]), (1, 2, 3, [Some 4])]"
      "new_BatchingTimelineUpdater ()" 2 1 3]
  by (simp add: values_for_def new_BatchingTimelineUpdater_def)

lemma distinct_map_set: "distinct (map fst m) \<Longrightarrow> distinct (map fst (map_set m k v))"
  by (cases "k \<in> fst ` set m") (simp_all add: map_set_present map_set_absent)

lemma table_ok_empty: "table_ok []"
  by (simp add: table_ok_def)

lemma table_ok_map_set:
  assumes "table_ok m" "k = job_id (trialId j) (runId j) (criterion j)" "dataForCriterion j \<noteq> []"
  shows "table_ok (map_set m k j)"
  using assms set_map_set_subset [of m k j]
  unfolding table_ok_def by (auto simp: distinct_map_set)

lemma table_ok_addValues:
  assumes "table_ok (requests u)"
  shows "table_ok (requests (addValues r t c vs u))"
proof (cases "map_get (requests u) (job_id t r c)")
  case None
  then show ?thesis
    using assms by (auto simp: addValues_def Let_def intro!: table_ok_map_set)
next
  case (Some job)
  then have "(job_id t r c, job) \<in> set (requests u)" by (rule map_get_Some_mem)
  with assms have "job_id t r c = job_id (trialId job) (runId job) (criterion job)"
    and "dataForCriterion job \<noteq> []"
    unfolding table_ok_def by auto
  then show ?thesis
    using assms Some
    by (auto simp: addValues_def Let_def push_present_non_null intro!: table_ok_map_set)
qed

lemma record_all_frame:
  "record_all rt rs u = (out, u1) \<Longrightarrow> u1 = u\<lparr>db := db u1, dbCalls := dbCalls u1\<rparr>"
proof (induction rs arbitrary: u)
  case Nil
  then show ?case by auto
next
  case (Cons r rs)
  obtain oc d where c: "rt (db u) (res_runId r) (res_trialId r) (res_criterion r) (stats r) = (oc, d)"
    by (cases "rt (db u) (res_runId r) (res_trialId r) (res_criterion r) (stats r)") auto
  show ?case
  proof (cases oc)
    case Rejected
    with c Cons.prems show ?thesis by auto
  next
    case Fulfilled
    with c Cons.prems have
      "record_all rt rs (u\<lparr>db := d, dbCalls := dbCalls u @ [(r, True)]\<rparr>) = (out, u1)" by simp
    from Cons.IH [OF this] show ?thesis by simp
  qed
qed

lemma record_all_fields:
  assumes "record_all rt rs u = (out, u1)"
  shows "requests u1 = requests u" and "activeRequests u1 = activeRequests u"
    and "requestsAtStart u1 = requestsAtStart u" and "promise u1 = promise u"
    and "resolveJobsPromiseWithNumberOfJobs u1 = resolveJobsPromiseWithNumberOfJobs u"
    and "jobPromises u1 = jobPromises u" and "voidPromises u1 = voidPromises u"
    and "worker u1 = worker u" and "spans u1 = spans u"
proof -
  have e: "u1 = u\<lparr>db := db u1, dbCalls := dbCalls u1\<rparr>"
    using assms by (rule record_all_frame)
  show "requests u1 = requests u" by (subst e) simp
  show "activeRequests u1 = activeRequests u" by (subst e) simp
  show "requestsAtStart u1 = requestsAtStart u" by (subst e) simp
  show "promise u1 = promise u" by (subst e) simp
  show "resolveJobsPromiseWithNumberOfJobs u1 = resolveJobsPromiseWithNumberOfJobs u"
    by (subst e) simp
  show "jobPromises u1 = jobPromises u" by (subst e) simp
  show "voidPromises u1 = voidPromises u" by (subst e) simp
  show "worker u1 = worker u" by (subst e) simp
  show "spans u1 = spans u" by (subst e) simp
qed

lemma database_after_Cons:
  "database_after rt d (r # rs) = database_after rt (snd (recordTimeline_of rt d r)) rs"
  by (simp add: database_after_def)

lemma outcome_at_0: "outcome_at rt d (r # rs) 0 = fst (recordTimeline_of rt d r)"
  by (simp add: outcome_at_def database_after_def)

lemma outcome_at_Suc:
  "outcome_at rt d (r # rs) (Suc i) = outcome_at rt (snd (recordTimeline_of rt d r)) rs i"
  by (simp add: outcome_at_def database_after_Cons)

text \<open>
  The calls that the loop makes: on a prefix of the batch, all successful but the last
  one of a rejected run.
\<close>

lemma record_all_calls:
  "record_all rt rs u = (out, u1) \<Longrightarrow>
   \<exists>k \<le> length rs.
     dbCalls u1 = dbCalls u @ map (\<lambda>r. (r, True)) (take k rs) @
       (if out = Rejected then [(rs ! k, False)] else []) \<and>
     (out = Rejected \<longrightarrow> k < length rs) \<and> (out = Fulfilled \<longrightarrow> k = length rs) \<and>
     db u1 = database_after rt (db u) (take (if out = Rejected then Suc k else k) rs) \<and>
     (\<forall>i<k. outcome_at rt (db u) rs i = Fulfilled) \<and>
     (out = Rejected \<longrightarrow> outcome_at rt (db u) rs k = Rejected)"
proof (induction rs arbitrary: u)
  case Nil
  then show ?case by (auto simp: database_after_def)
next
  case (Cons r rs)
  obtain oc d where c: "rt (db u) (res_runId r) (res_trialId r) (res_criterion r) (stats r) = (oc, d)"
    by (cases "rt (db u) (res_runId r) (res_trialId r) (res_criterion r) (stats r)") auto
  then have c': "recordTimeline_of rt (db u) r = (oc, d)" by (simp add: recordTimeline_of_def)
  show ?case
  proof (cases oc)
    case Rejected
    with c Cons.prems have "out = Rejected" "dbCalls u1 = dbCalls u @ [(r, False)]" "db u1 = d"
      by auto
    with c' Rejected show ?thesis
      by (intro exI [of _ 0]) (simp add: database_after_def outcome_at_0)
  next
    case Fulfilled
    with c Cons.prems have
      "record_all rt rs (u\<lparr>db := d, dbCalls := dbCalls u @ [(r, True)]\<rparr>) = (out, u1)" by simp
    from Cons.IH [OF this] obtain k where k: "k \<le> length rs"
      "dbCalls u1 = (dbCalls u @ [(r, True)]) @ map (\<lambda>r. (r, True)) (take k rs) @
         (if out = Rejected then [(rs ! k, False)] else [])"
      "out = Rejected \<longrightarrow> k < length rs" "out = Fulfilled \<longrightarrow> k = length rs"
      "db u1 = database_after rt d (take (if out = Rejected then Suc k else k) rs)"
      "\<forall>i<k. outcome_at rt d rs i = Fulfilled"
      "out = Rejected \<longrightarrow> outcome_at rt d rs k = Rejected"
      by auto
    have all: "\<forall>i<Suc k. outcome_at rt (db u) (r # rs) i = Fulfilled"
    proof (intro allI impI)
      fix i assume "i < Suc k"
      with k(6) c' Fulfilled show "outcome_at rt (db u) (r # rs) i = Fulfilled"
        by (cases i) (simp_all add: outcome_at_0 outcome_at_Suc)
    qed
    have last: "out = Rejected \<longrightarrow> outcome_at rt (db u) (r # rs) (Suc k) = Rejected"
      using k(7) c' by (simp add: outcome_at_Suc)
    have dbs: "db u1 =
        database_after rt (db u) (take (if out = Rejected then Suc (Suc k) else Suc k) (r # rs))"
      using k(5) c' by (simp add: database_after_Cons)
    from k(1-4) all last dbs show ?thesis by (intro exI [of _ "Suc k"]) simp
  qed
qed

lemma receiveResults_Rejected:
  assumes "receiveResults rt r u = (Rejected, u1)"
  shows "record_all rt (results r) u = (Rejected, u1)"
  using assms
  by (auto simp: receiveResults_def Let_def split: prod.splits outcome.splits option.splits if_splits)

lemma receiveResults_Fulfilled:
  assumes "receiveResults rt r u = (Fulfilled, u1)"
  obtains u0 where "record_all rt (results r) u = (Fulfilled, u0)"
    and "dbCalls u1 = dbCalls u0" and "db u1 = db u0"
  using assms
  by (auto simp: receiveResults_def Let_def split: prod.splits outcome.splits option.splits if_splits)

lemma receiveResults_requests: "requests (snd (receiveResults rt r u)) = requests u"
proof (cases "record_all rt (results r) u")
  case (Pair out u0)
  from record_all_fields(1) [OF Pair] show ?thesis
    using Pair
    by (auto simp: receiveResults_def Let_def split: prod.splits outcome.splits option.splits)
qed

lemma processUpdateJobs_requests: "requests (snd (processUpdateJobs js start u)) = requests u"
  by (simp add: processUpdateJobs_def promise_resolve_def new_promise_def Let_def
      split: prod.splits)

lemma table_ok_perform: "table_ok (requests u) \<Longrightarrow> table_ok (requests (perform rt x u))"
proof (cases x)
  case (AddValues r t c vs)
  assume "table_ok (requests u)"
  then show ?thesis unfolding AddValues perform.simps by (rule table_ok_addValues)
next
  case (SubmitUpdateJobs now)
  then show ?thesis
    by (simp add: submitUpdateJobs_def consumeUpdateJobsForBenchmarking_def
        processUpdateJobs_requests table_ok_empty)
next
  case (ReceiveResults r)
  assume "table_ok (requests u)"
  then show ?thesis unfolding ReceiveResults perform.simps by (simp add: receiveResults_requests)
next
  case ConsumeUpdateJobsForBenchmarking
  then show ?thesis by (simp add: consumeUpdateJobsForBenchmarking_def table_ok_empty)
next
  case (ProcessUpdateJobsForBenchmarking js start)
  assume "table_ok (requests u)"
  then show ?thesis unfolding ProcessUpdateJobsForBenchmarking perform.simps
    using processUpdateJobs_requests [of js start u]
    by (auto simp: processUpdateJobsForBenchmarking_def async_return_def split: prod.splits)
next
  case Shutdown
  assume "table_ok (requests u)"
  then show ?thesis unfolding Shutdown perform.simps
    by (simp add: shutdown_def worker_shutdown_def new_promise_def async_return_def Let_def
        split: option.splits prod.splits)
next
  case (ProcessResponse message)
  assume "table_ok (requests u)"
  then show ?thesis unfolding ProcessResponse perform.simps
    by (cases message)
      (simp_all add: processResponse_def receiveResults_requests Let_def split: option.splits)
qed simp_all

lemma table_ok_perform_all:
  "table_ok (requests u) \<Longrightarrow> table_ok (requests (perform_all rt xs u))"
  by (induction xs arbitrary: u) (simp_all add: table_ok_perform)

lemma table_ok_distinct_keys:
  assumes "table_ok m"
  shows "distinct (map job_key (map_values m))"
proof -
  have "map fst m = map (\<lambda>(t, r, c). job_id t r c) (map job_key (map_values m))"
    using assms unfolding table_ok_def map_values_def job_key_def by auto
  moreover have "distinct (map fst m)" using assms by (simp add: table_ok_def)
  ultimately show ?thesis by (metis distinct_map)
qed

lemma table_ok_nonempty:
  assumes "table_ok m"
  shows "[] \<notin> set (map dataForCriterion (map_values m))"
  using assms unfolding table_ok_def map_values_def by auto

text \<open>
  C4. After every sequence of operations on a new updater (\<open>addValues\<close>,
  \<open>submitUpdateJobs\<close> and every other public method, in any order), the table of pending
  jobs holds at most one job for each triple (trialId, runId, criterionId), and no job in
  the table has an empty \<open>dataForCriterion\<close> array.
\<close>

theorem pending_jobs_unique_nonempty:
  "distinct (map job_key (map_values (requests (perform_all rt xs (new_BatchingTimelineUpdater d)))))
   \<and> [] \<notin> set (map dataForCriterion
        (map_values (requests (perform_all rt xs (new_BatchingTimelineUpdater d)))))"
proof -
  have "table_ok (requests (perform_all rt xs (new_BatchingTimelineUpdater d)))"
    by (rule table_ok_perform_all) (simp add: new_BatchingTimelineUpdater_def table_ok_empty)
  then show ?thesis using table_ok_distinct_keys table_ok_nonempty by blast
qed

text \<open>
  C3. When the table of pending jobs is empty, \<open>submitUpdateJobs\<close> returns a promise that
  is resolved with 0, posts nothing to the worker and leaves the in-flight counter as it
  was.
\<close>

theorem submit_empty_table:
  assumes "requests u = []"
  shows "resolution (jobPromises (snd (submitUpdateJobs now u))) (fst (submitUpdateJobs now u)) = Some 0
    \<and> posted (worker (snd (submitUpdateJobs now u))) = posted (worker u)
    \<and> activeRequests (snd (submitUpdateJobs now u)) = activeRequests u"
  using assms
  by (simp add: submitUpdateJobs_def consumeUpdateJobsForBenchmarking_def map_values_def
      processUpdateJobs_def promise_resolve_def)

theorem submit_empty_table_witness:
  "requests (new_BatchingTimelineUpdater () :: (unit, unit) batching_timeline_updater) = [] \<and>
   resolution (jobPromises (snd (submitUpdateJobs 5
       (new_BatchingTimelineUpdater () :: (unit, unit) batching_timeline_updater))))
     (fst (submitUpdateJobs 5 (new_BatchingTimelineUpdater ()
        :: (unit, unit) batching_timeline_updater))) = Some 0 \<and>
   posted (worker (snd (submitUpdateJobs 5
       (new_BatchingTimelineUpdater () :: (unit, unit) batching_timeline_updater)))) = []"
proof -
  have h: "requests (new_BatchingTimelineUpdater () :: (unit, unit) batching_timeline_updater) = []"
    by (simp add: new_BatchingTimelineUpdater_def)
  show ?thesis
    using h submit_empty_table [OF h, of 5]
    by (simp add: new_BatchingTimelineUpdater_def new_TimelineWorker_def)
qed

lemma receiveResults_fields:
  assumes "receiveResults rt r u = (out, u1)"
  shows "worker u1 = worker u" and "voidPromises u1 = voidPromises u"
    and "requestsAtStart u1 = requestsAtStart u" and "promise u1 = promise u"
proof -
  obtain out0 u0 where p: "record_all rt (results r) u = (out0, u0)"
    by (cases "record_all rt (results r) u") auto
  note f = record_all_fields [OF p]
  show "worker u1 = worker u" using assms p f(8)
    by (auto simp: receiveResults_def Let_def split: outcome.splits option.splits if_splits)
  show "voidPromises u1 = voidPromises u" using assms p f(7)
    by (auto simp: receiveResults_def Let_def split: outcome.splits option.splits if_splits)
  show "requestsAtStart u1 = requestsAtStart u" using assms p f(3)
    by (auto simp: receiveResults_def Let_def split: outcome.splits option.splits if_splits)
  show "promise u1 = promise u" using assms p f(4)
    by (auto simp: receiveResults_def Let_def split: outcome.splits option.splits if_splits)
qed

lemma receiveResults_Rejected_fields:
  assumes "receiveResults rt r u = (Rejected, u1)"
  shows "activeRequests u1 = activeRequests u" and "jobPromises u1 = jobPromises u"
    and "resolveJobsPromiseWithNumberOfJobs u1 = resolveJobsPromiseWithNumberOfJobs u"
    and "spans u1 = spans u"
  using record_all_fields [OF receiveResults_Rejected [OF assms]] by simp_all

lemma receiveResults_Fulfilled_fields:
  assumes "receiveResults rt r u = (Fulfilled, u1)"
  shows "activeRequests u1 = activeRequests u - int (length (results r))"
    and "(jobPromises u1, resolveJobsPromiseWithNumberOfJobs u1) =
      (if activeRequests u1 = 0 \<and> res_requestStart r \<noteq> 0 then
         (case resolveJobsPromiseWithNumberOfJobs u of
            Some p \<Rightarrow> (resolve p (requestsAtStart u) (jobPromises u), None)
          | None \<Rightarrow> (jobPromises u, None))
       else (jobPromises u, resolveJobsPromiseWithNumberOfJobs u))"
proof -
  obtain out0 u0 where p: "record_all rt (results r) u = (out0, u0)"
    by (cases "record_all rt (results r) u") auto
  note f = record_all_fields [OF p]
  show "activeRequests u1 = activeRequests u - int (length (results r))"
    using assms p f(2)
    by (auto simp: receiveResults_def Let_def split: outcome.splits option.splits if_splits)
  show "(jobPromises u1, resolveJobsPromiseWithNumberOfJobs u1) =
      (if activeRequests u1 = 0 \<and> res_requestStart r \<noteq> 0 then
         (case resolveJobsPromiseWithNumberOfJobs u of
            Some p \<Rightarrow> (resolve p (requestsAtStart u) (jobPromises u), None)
          | None \<Rightarrow> (jobPromises u, None))
       else (jobPromises u, resolveJobsPromiseWithNumberOfJobs u))"
    using assms p f(2,3,5,6)
    by (auto simp: receiveResults_def Let_def split: outcome.splits option.splits if_splits)
qed

text \<open>
  C5. For every batch passed to \<open>receiveResults\<close>, \<open>recordTimeline\<close> is called on the results
  of a prefix of the batch, once on each and in the order of the batch, every call on the
  database that the call before it left, and on nothing else: that is the database after
  \<open>receiveResults\<close>. When \<open>receiveResults\<close> is fulfilled the prefix is the whole batch and
  every call succeeded. When it is rejected, the prefix ends with the call that failed,
  every call before it succeeded, the failed call was made once, and the results after it
  were never passed to \<open>recordTimeline\<close>. The log of the calls says the same.
\<close>

theorem receiveResults_calls_in_order:
  assumes "receiveResults rt r u = (out, u1)"
  shows "(out = Fulfilled \<longrightarrow>
         db u1 = database_after rt (db u) (results r) \<and>
         (\<forall>i<length (results r). outcome_at rt (db u) (results r) i = Fulfilled))
    \<and> (out = Rejected \<longrightarrow>
         (\<exists>k<length (results r).
            db u1 = database_after rt (db u) (take (Suc k) (results r)) \<and>
            (\<forall>i<k. outcome_at rt (db u) (results r) i = Fulfilled) \<and>
            outcome_at rt (db u) (results r) k = Rejected \<and>
            length (calls_made u u1) = Suc k))
    \<and> dbCalls u1 = dbCalls u @ calls_made u u1
    \<and> map fst (calls_made u u1) = take (length (calls_made u u1)) (results r)
    \<and> (out = Fulfilled \<longrightarrow>
         length (calls_made u u1) = length (results r) \<and> list_all snd (calls_made u u1))
    \<and> (out = Rejected \<longrightarrow>
         calls_made u u1 \<noteq> [] \<and> \<not> snd (last (calls_made u u1))
         \<and> list_all snd (butlast (calls_made u u1)))"
proof -
  obtain out0 u0 where p: "record_all rt (results r) u = (out0, u0)"
    by (cases "record_all rt (results r) u") auto
  have o: "out0 = out" and d: "dbCalls u1 = dbCalls u0" and b: "db u0 = db u1"
    using assms p
    by (auto simp: receiveResults_def Let_def split: outcome.splits option.splits if_splits)
  from record_all_calls [OF p] obtain k where k: "k \<le> length (results r)"
    "dbCalls u0 = dbCalls u @ map (\<lambda>r. (r, True)) (take k (results r)) @
       (if out0 = Rejected then [(results r ! k, False)] else [])"
    "out0 = Rejected \<longrightarrow> k < length (results r)" "out0 = Fulfilled \<longrightarrow> k = length (results r)"
    "db u0 = database_after rt (db u) (take (if out0 = Rejected then Suc k else k) (results r))"
    "\<forall>i<k. outcome_at rt (db u) (results r) i = Fulfilled"
    "out0 = Rejected \<longrightarrow> outcome_at rt (db u) (results r) k = Rejected"
    by auto
  have c: "calls_made u u1 = map (\<lambda>r. (r, True)) (take k (results r)) @
       (if out = Rejected then [(results r ! k, False)] else [])"
    by (simp add: calls_made_def d k(2) o)
  show ?thesis
  proof (cases out)
    case Fulfilled
    with c k(4,5,6) o b show ?thesis
      by (simp add: d k(2) list_all_iff comp_def)
  next
    case Rejected
    with k(3) o have kl: "k < length (results r)" by simp
    then have t: "take (Suc k) (results r) = take k (results r) @ [results r ! k]"
      by (rule take_Suc_conv_app_nth)
    have l: "length (calls_made u u1) = Suc k"
      unfolding c using Rejected kl by simp
    have e: "\<exists>k<length (results r).
            db u1 = database_after rt (db u) (take (Suc k) (results r)) \<and>
            (\<forall>i<k. outcome_at rt (db u) (results r) i = Fulfilled) \<and>
            outcome_at rt (db u) (results r) k = Rejected \<and>
            length (calls_made u u1) = Suc k"
      using kl k(5,6,7) o b Rejected l by (intro exI [of _ k]) simp
    have rest: "dbCalls u1 = dbCalls u @ calls_made u u1
      \<and> map fst (calls_made u u1) = take (length (calls_made u u1)) (results r)
      \<and> calls_made u u1 \<noteq> [] \<and> \<not> snd (last (calls_made u u1))
      \<and> list_all snd (butlast (calls_made u u1))"
      using c Rejected kl t by (simp add: d k(2) o list_all_iff comp_def min_def)
    from e rest Rejected show ?thesis by simp
  qed
qed



theorem receiveResults_calls_in_order_witness:
  "receiveResults example_recordTimeline
     \<lparr>results = [example_result 1 1 1, example_result 1 1 (- 1), example_result 1 1 2],
      res_requestStart = 5\<rparr>
     (new_BatchingTimelineUpdater [])
   = (Rejected, (new_BatchingTimelineUpdater [])
        \<lparr>db := [1], dbCalls := [(example_result 1 1 1, True), (example_result 1 1 (- 1), False)]\<rparr>)
   \<and> database_after example_recordTimeline []
        [example_result 1 1 1, example_result 1 1 (- 1)] = [1]
   \<and> outcome_at example_recordTimeline []
        [example_result 1 1 1, example_result 1 1 (- 1), example_result 1 1 2] 1 = Rejected
   \<and> calls_made (new_BatchingTimelineUpdater [])
        (snd (receiveResults example_recordTimeline
          \<lparr>results = [example_result 1 1 1, example_result 1 1 (- 1), example_result 1 1 2],
           res_requestStart = 5\<rparr>
          (new_BatchingTimelineUpdater [])))
      = [(example_result 1 1 1, True), (example_result 1 1 (- 1), False)]"
proof -
  let ?u = "new_BatchingTimelineUpdater [] :: (unit, int list) batching_timeline_updater"
  let ?u1 = "?u\<lparr>db := [1],
        dbCalls := [(example_result 1 1 1, True), (example_result 1 1 (- 1), False)]\<rparr>"
  let ?rs = "[example_result 1 1 1, example_result 1 1 (- 1), example_result 1 1 2]"
  have h: "receiveResults example_recordTimeline
     \<lparr>results = ?rs, res_requestStart = 5\<rparr> ?u = (Rejected, ?u1)"
    by (simp add: receiveResults_def example_recordTimeline_def example_result_def
        new_BatchingTimelineUpdater_def)
  have s: "db ?u1 = [1]" "db ?u = []" "dbCalls ?u = []"
    "dbCalls ?u1 = [(example_result 1 1 1, True), (example_result 1 1 (- 1), False)]"
    "results \<lparr>results = ?rs, res_requestStart = 5\<rparr> = ?rs"
    by (simp_all add: new_BatchingTimelineUpdater_def)
  note t = receiveResults_calls_in_order [OF h]
  from t [THEN conjunct2, THEN conjunct2, THEN conjunct1]
  have c: "calls_made ?u ?u1 = [(example_result 1 1 1, True), (example_result 1 1 (- 1), False)]"
    unfolding s by simp
  from t [THEN conjunct2, THEN conjunct1] obtain k where
    k: "db ?u1 = database_after example_recordTimeline (db ?u)
          (take (Suc k) (results \<lparr>results = ?rs, res_requestStart = 5\<rparr>))"
      "outcome_at example_recordTimeline (db ?u)
          (results \<lparr>results = ?rs, res_requestStart = 5\<rparr>) k = Rejected"
      "length (calls_made ?u ?u1) = Suc k"
    by blast
  from k(3) have k1: "k = 1" unfolding c by simp
  from k(1) have a: "database_after example_recordTimeline []
        [example_result 1 1 1, example_result 1 1 (- 1)] = [1]"
    unfolding s k1 by simp
  from k(2) have b: "outcome_at example_recordTimeline [] ?rs 1 = Rejected"
    unfolding s k1 .
  from c have c': "calls_made ?u (snd (receiveResults example_recordTimeline
      \<lparr>results = ?rs, res_requestStart = 5\<rparr> ?u)) =
      [(example_result 1 1 1, True), (example_result 1 1 (- 1), False)]"
    by (simp only: h snd_conv)
  from h a b c' show ?thesis by - (intro conjI; assumption)
qed


lemma resolve_pending: "resolution ps p = None \<Longrightarrow> resolution (resolve p v ps) p = Some v"
  by (simp add: resolve_def)

lemma resolve_other: "q \<noteq> p \<Longrightarrow> resolution (resolve p v ps) q = resolution ps q"
  by (simp add: resolve_def split: option.splits)

lemma resolve_fresh: "fresh (resolve p v ps) = fresh ps"
  by (simp add: resolve_def split: option.splits)

lemma resolve_resolved: "resolution ps p = Some w \<Longrightarrow> resolve p v ps = ps"
  by (simp add: resolve_def)

lemma resolve_adopts: "adopts (resolve p v ps) = adopts ps"
  by (simp add: resolve_def split: option.splits)

lemma updater_ok_new: "updater_ok (new_BatchingTimelineUpdater d)"
  by (simp add: updater_ok_def new_BatchingTimelineUpdater_def new_TimelineWorker_def
      no_promises_def)

lemma updater_ok_addValues: "updater_ok u \<Longrightarrow> updater_ok (addValues r t c vs u)"
  by (auto simp: updater_ok_def addValues_def Let_def split: option.splits)

lemma updater_ok_processUpdateJobs:
  "updater_ok u \<Longrightarrow> updater_ok (snd (processUpdateJobs js start u))"
  by (auto simp: updater_ok_def processUpdateJobs_def promise_resolve_def new_promise_def
      sendRequest_def Let_def less_Suc_eq)

lemma processUpdateJobsForBenchmarking_snd:
  "snd (processUpdateJobsForBenchmarking js start u) =
     (snd (processUpdateJobs js start u))\<lparr>jobPromises :=
        snd (async_return (fst (processUpdateJobs js start u))
          (jobPromises (snd (processUpdateJobs js start u))))\<rparr>"
  by (simp add: processUpdateJobsForBenchmarking_def split: prod.splits)

lemma updater_ok_async_return:
  "updater_ok u \<Longrightarrow> updater_ok (u\<lparr>jobPromises := snd (async_return p (jobPromises u))\<rparr>)"
  by (auto simp: updater_ok_def async_return_def less_Suc_eq)

lemma updater_ok_receiveResults:
  assumes "updater_ok u"
  shows "updater_ok (snd (receiveResults rt r u))"
proof -
  obtain out u1 where r: "receiveResults rt r u = (out, u1)"
    by (cases "receiveResults rt r u") auto
  note g = receiveResults_fields [OF r]
  show ?thesis
  proof (cases out)
    case Rejected
    from receiveResults_Rejected_fields [OF r [unfolded Rejected]] g assms show ?thesis
      by (simp add: updater_ok_def r)
  next
    case Fulfilled
    from receiveResults_Fulfilled_fields(2) [OF r [unfolded Fulfilled]]
    have "(jobPromises u1 = jobPromises u \<and>
           resolveJobsPromiseWithNumberOfJobs u1 = resolveJobsPromiseWithNumberOfJobs u)
        \<or> (jobPromises u1 = jobPromises u \<and> resolveJobsPromiseWithNumberOfJobs u1 = None)
        \<or> (\<exists>p. resolveJobsPromiseWithNumberOfJobs u = Some p \<and>
             jobPromises u1 = resolve p (requestsAtStart u) (jobPromises u) \<and>
             resolveJobsPromiseWithNumberOfJobs u1 = None)"
      by (auto split: if_splits option.splits)
    then show ?thesis
    proof (elim disjE exE conjE)
      assume "jobPromises u1 = jobPromises u"
        "resolveJobsPromiseWithNumberOfJobs u1 = resolveJobsPromiseWithNumberOfJobs u"
      with g assms show ?thesis by (simp add: updater_ok_def r)
    next
      assume "jobPromises u1 = jobPromises u" "resolveJobsPromiseWithNumberOfJobs u1 = None"
      with g assms show ?thesis by (simp add: updater_ok_def r)
    next
      fix p
      assume p: "resolveJobsPromiseWithNumberOfJobs u = Some p"
        and j: "jobPromises u1 = resolve p (requestsAtStart u) (jobPromises u)"
        and n: "resolveJobsPromiseWithNumberOfJobs u1 = None"
      from assms p have lt: "p < fresh (jobPromises u)" by (simp add: updater_ok_def)
      have "\<forall>q. fresh (jobPromises u1) \<le> q \<longrightarrow> resolution (jobPromises u1) q = None"
        using assms lt unfolding j by (auto simp: resolve_fresh resolve_other updater_ok_def)
      with g n assms show ?thesis by (simp add: updater_ok_def r)
    qed
  qed
qed

lemma updater_ok_shutdown: "updater_ok u \<Longrightarrow> updater_ok (snd (shutdown u))"
  by (auto simp: updater_ok_def shutdown_def worker_shutdown_def new_promise_def
      async_return_def Let_def less_Suc_eq split: option.splits)

lemma updater_ok_processResponse:
  assumes "updater_ok u"
  shows "updater_ok (processResponse rt message u)"
proof (cases message)
  case Exiting
  show ?thesis
  proof (cases "shutdownResolve (worker u)")
    case None
    with assms show ?thesis by (simp add: processResponse_def Exiting updater_ok_def)
  next
    case (Some p)
    with assms have "p < fresh (voidPromises u)" by (simp add: updater_ok_def)
    with assms Some show ?thesis
      by (auto simp: processResponse_def Exiting updater_ok_def Let_def resolve_fresh
          resolve_other resolve_adopts)
  qed
next
  case (Results r)
  with assms show ?thesis by (simp add: processResponse_def updater_ok_receiveResults)
qed

lemma updater_ok_perform: "updater_ok u \<Longrightarrow> updater_ok (perform rt x u)"
proof (cases x)
  case (SubmitUpdateJobs now)
  assume "updater_ok u"
  then have "updater_ok (u\<lparr>requests := []\<rparr>)" by (simp add: updater_ok_def)
  then show ?thesis unfolding SubmitUpdateJobs
    by (simp add: submitUpdateJobs_def consumeUpdateJobsForBenchmarking_def
        updater_ok_processUpdateJobs)
next
  case ConsumeUpdateJobsForBenchmarking
  assume "updater_ok u"
  then show ?thesis unfolding ConsumeUpdateJobsForBenchmarking
    by (simp add: consumeUpdateJobsForBenchmarking_def updater_ok_def)
next
  case (ProcessUpdateJobsForBenchmarking js start)
  assume "updater_ok u"
  then show ?thesis unfolding ProcessUpdateJobsForBenchmarking
    by (simp add: processUpdateJobsForBenchmarking_snd updater_ok_processUpdateJobs
        updater_ok_async_return)
next
  case WorkerError
  assume "updater_ok u"
  then show ?thesis unfolding WorkerError by (simp add: updater_ok_def on_error_def)
next
  case (WorkerExit exitCode)
  assume "updater_ok u"
  then show ?thesis unfolding WorkerExit by (simp add: updater_ok_def on_exit_def)
qed (simp_all add: updater_ok_addValues updater_ok_receiveResults updater_ok_shutdown
    updater_ok_processResponse)

lemma updater_ok_perform_all: "updater_ok u \<Longrightarrow> updater_ok (perform_all rt xs u)"
  by (induction xs arbitrary: u) (simp_all add: updater_ok_perform)

lemma submitUpdateJobs_dispatch:
  assumes "requests u \<noteq> []" and "submitUpdateJobs now u = (p, u1)"
  shows "p = fresh (jobPromises u)"
    and "activeRequests u1 = activeRequests u + int (length (requests u))"
    and "requestsAtStart u1 = activeRequests u + int (length (requests u))"
    and "resolveJobsPromiseWithNumberOfJobs u1 = Some p"
    and "resolution (jobPromises u1) = resolution (jobPromises u)"
    and "posted (worker u1) =
      posted (worker u) @ [Request \<lparr>jobs = map_values (requests u), requestStart = now\<rparr>]"
    and "fresh (jobPromises u1) = Suc (fresh (jobPromises u))"
  using assms
  by (auto simp: submitUpdateJobs_def consumeUpdateJobsForBenchmarking_def map_values_def
      processUpdateJobs_def new_promise_def sendRequest_def Let_def)

text \<open>The messages posted only grow.\<close>

lemma perform_posted: "\<exists>ms. posted (worker (perform rt x u)) = posted (worker u) @ ms"
proof (cases x)
  case (AddValues r t c vs)
  show ?thesis unfolding AddValues by (simp add: addValues_def Let_def split: option.splits)
next
  case (SubmitUpdateJobs now)
  show ?thesis unfolding SubmitUpdateJobs
    by (simp add: submitUpdateJobs_def consumeUpdateJobsForBenchmarking_def
        processUpdateJobs_def promise_resolve_def new_promise_def sendRequest_def Let_def)
next
  case (ReceiveResults r)
  obtain out u1 where r: "receiveResults rt r u = (out, u1)"
    by (cases "receiveResults rt r u") auto
  from receiveResults_fields(1) [OF r] show ?thesis unfolding ReceiveResults by (simp add: r)
next
  case ConsumeUpdateJobsForBenchmarking
  show ?thesis unfolding ConsumeUpdateJobsForBenchmarking
    by (simp add: consumeUpdateJobsForBenchmarking_def)
next
  case (ProcessUpdateJobsForBenchmarking js start)
  show ?thesis unfolding ProcessUpdateJobsForBenchmarking
    by (simp add: processUpdateJobsForBenchmarking_snd
        processUpdateJobs_def promise_resolve_def new_promise_def sendRequest_def Let_def)
next
  case Shutdown
  show ?thesis unfolding Shutdown
    by (simp add: shutdown_def worker_shutdown_def new_promise_def async_return_def Let_def
        split: option.splits)
next
  case (ProcessResponse message)
  show ?thesis
  proof (cases message)
    case Exiting
    show ?thesis unfolding ProcessResponse Exiting
      by (simp add: processResponse_def Let_def split: option.splits)
  next
    case (Results r)
    obtain out u1 where r: "receiveResults rt r u = (out, u1)"
      by (cases "receiveResults rt r u") auto
    from receiveResults_fields(1) [OF r] show ?thesis unfolding ProcessResponse Results
      by (simp add: processResponse_def r)
  qed
next
  case WorkerError
  show ?thesis unfolding WorkerError by (simp add: on_error_def)
next
  case (WorkerExit exitCode)
  show ?thesis unfolding WorkerExit by (simp add: on_exit_def)
qed

lemma perform_all_posted:
  "\<exists>ms. posted (worker (perform_all rt xs u)) = posted (worker u) @ ms"
proof (induction xs arbitrary: u)
  case Nil
  show ?case by simp
next
  case (Cons x xs)
  from perform_posted [of rt x u] obtain ms1 where
    "posted (worker (perform rt x u)) = posted (worker u) @ ms1" ..
  moreover from Cons [of "perform rt x u"] obtain ms2 where
    "posted (worker (perform_all rt xs (perform rt x u))) =
       posted (worker (perform rt x u)) @ ms2" ..
  ultimately show ?case by simp
qed

text \<open>A first operation that is part of a run in which no request is posted.\<close>

lemma quiet_run_split:
  assumes "requests_posted (perform_all rt (x # xs) u) = requests_posted u"
  shows "requests_posted (perform rt x u) = requests_posted u"
    and "requests_posted (perform_all rt xs (perform rt x u)) = requests_posted (perform rt x u)"
proof -
  from perform_posted [of rt x u] obtain ms1 where
    m1: "posted (worker (perform rt x u)) = posted (worker u) @ ms1" ..
  from perform_all_posted [of rt xs "perform rt x u"] obtain ms2 where
    m2: "posted (worker (perform_all rt xs (perform rt x u))) =
       posted (worker (perform rt x u)) @ ms2" ..
  from assms(1) have "filter (\<lambda>m. m \<noteq> Exit) ms1 = [] \<and> filter (\<lambda>m. m \<noteq> Exit) ms2 = []"
    by (simp add: requests_posted_def m1 m2)
  then show "requests_posted (perform rt x u) = requests_posted u"
    and "requests_posted (perform_all rt xs (perform rt x u)) = requests_posted (perform rt x u)"
    by (simp_all add: requests_posted_def m1 m2)
qed

text \<open>An operation that hands no batch to \<open>receiveResults\<close> and posts no request.\<close>

lemma perform_quiet:
  assumes "batch_of x = []" and "requests_posted (perform rt x u) = requests_posted u"
  shows "activeRequests (perform rt x u) = activeRequests u"
    and "requestsAtStart (perform rt x u) = requestsAtStart u"
    and "resolveJobsPromiseWithNumberOfJobs (perform rt x u) =
      resolveJobsPromiseWithNumberOfJobs u"
    and "fresh (jobPromises u) \<le> fresh (jobPromises (perform rt x u))"
    and "q < fresh (jobPromises u) \<Longrightarrow>
      resolution (jobPromises (perform rt x u)) q = resolution (jobPromises u) q"
proof -
  have "activeRequests (perform rt x u) = activeRequests u
    \<and> requestsAtStart (perform rt x u) = requestsAtStart u
    \<and> resolveJobsPromiseWithNumberOfJobs (perform rt x u) = resolveJobsPromiseWithNumberOfJobs u
    \<and> fresh (jobPromises u) \<le> fresh (jobPromises (perform rt x u))
    \<and> (\<forall>q < fresh (jobPromises u).
         resolution (jobPromises (perform rt x u)) q = resolution (jobPromises u) q)"
  proof (cases x)
    case (AddValues r t c vs)
    show ?thesis unfolding AddValues by (simp add: addValues_def Let_def split: option.splits)
  next
    case (SubmitUpdateJobs now)
    with assms(2) show ?thesis
      by (simp add: submitUpdateJobs_def consumeUpdateJobsForBenchmarking_def
          processUpdateJobs_def promise_resolve_def new_promise_def sendRequest_def
          requests_posted_def Let_def split: if_splits)
  next
    case (ReceiveResults r)
    with assms(1) show ?thesis by simp
  next
    case ConsumeUpdateJobsForBenchmarking
    show ?thesis unfolding ConsumeUpdateJobsForBenchmarking
      by (simp add: consumeUpdateJobsForBenchmarking_def)
  next
    case (ProcessUpdateJobsForBenchmarking js start)
    with assms(2) show ?thesis
      by (simp add: processUpdateJobsForBenchmarking_snd async_return_def
          processUpdateJobs_def promise_resolve_def new_promise_def sendRequest_def
          requests_posted_def Let_def split: if_splits)
  next
    case Shutdown
    show ?thesis unfolding Shutdown
      by (simp add: shutdown_def worker_shutdown_def new_promise_def async_return_def Let_def
          split: option.splits)
  next
    case (ProcessResponse message)
    with assms(1) have "message = Exiting" by (cases message) simp_all
    then show ?thesis unfolding ProcessResponse
      by (simp add: processResponse_def Let_def split: option.splits)
  next
    case WorkerError
    show ?thesis unfolding WorkerError by simp
  next
    case (WorkerExit exitCode)
    show ?thesis unfolding WorkerExit by simp
  qed
  then show "activeRequests (perform rt x u) = activeRequests u"
    and "requestsAtStart (perform rt x u) = requestsAtStart u"
    and "resolveJobsPromiseWithNumberOfJobs (perform rt x u) =
      resolveJobsPromiseWithNumberOfJobs u"
    and "fresh (jobPromises u) \<le> fresh (jobPromises (perform rt x u))"
    and "q < fresh (jobPromises u) \<Longrightarrow>
      resolution (jobPromises (perform rt x u)) q = resolution (jobPromises u) q"
    by simp_all
qed

lemma perform_batch:
  assumes "batch_of x = r # rs"
  shows "rs = []" and "perform rt x u = snd (receiveResults rt r u)"
proof -
  have "rs = [] \<and> perform rt x u = snd (receiveResults rt r u)"
  proof (cases x)
    case (ProcessResponse message)
    with assms show ?thesis by (cases message) (simp_all add: processResponse_def)
  qed (use assms in simp_all)
  then show "rs = []" and "perform rt x u = snd (receiveResults rt r u)" by simp_all
qed

text \<open>
  One operation of a wave that is under way (promise \<open>p\<close>, \<open>n\<close> jobs) or completed: the
  counter goes down by the size of the batch, and the wave stays under way or completes.
\<close>

lemma wave_step:
  assumes quiet: "requests_posted (perform rt x v) = requests_posted v"
    and calls: "Rejected \<notin> set (map (\<lambda>r. fst (receiveResults rt r v)) (batch_of x))"
    and start: "\<forall>b\<in>set (batch_of x). res_requestStart b \<noteq> 0"
    and p: "p < fresh (jobPromises v)"
    and under_way: "activeRequests v \<noteq> 0 \<longrightarrow> resolveJobsPromiseWithNumberOfJobs v = Some p
           \<and> resolution (jobPromises v) p = None \<and> requestsAtStart v = n"
    and completed: "activeRequests v = 0 \<longrightarrow> resolveJobsPromiseWithNumberOfJobs v = None
           \<and> resolution (jobPromises v) p = Some n"
  shows "activeRequests (perform rt x v) =
      activeRequests v - (\<Sum>b\<leftarrow>batch_of x. int (length (results b)))"
    and "p < fresh (jobPromises (perform rt x v))"
    and "0 \<le> activeRequests (perform rt x v) \<Longrightarrow> activeRequests (perform rt x v) \<noteq> 0 \<Longrightarrow>
      resolveJobsPromiseWithNumberOfJobs (perform rt x v) = Some p
      \<and> resolution (jobPromises (perform rt x v)) p = None
      \<and> requestsAtStart (perform rt x v) = n"
    and "0 \<le> activeRequests (perform rt x v) \<Longrightarrow> activeRequests (perform rt x v) = 0 \<Longrightarrow>
      resolveJobsPromiseWithNumberOfJobs (perform rt x v) = None
      \<and> resolution (jobPromises (perform rt x v)) p = Some n"
proof -
  let ?v1 = "perform rt x v"
  have "activeRequests ?v1 = activeRequests v - (\<Sum>b\<leftarrow>batch_of x. int (length (results b)))
    \<and> p < fresh (jobPromises ?v1)
    \<and> (0 \<le> activeRequests ?v1 \<longrightarrow> activeRequests ?v1 \<noteq> 0 \<longrightarrow>
         resolveJobsPromiseWithNumberOfJobs ?v1 = Some p
         \<and> resolution (jobPromises ?v1) p = None \<and> requestsAtStart ?v1 = n)
    \<and> (0 \<le> activeRequests ?v1 \<longrightarrow> activeRequests ?v1 = 0 \<longrightarrow>
         resolveJobsPromiseWithNumberOfJobs ?v1 = None
         \<and> resolution (jobPromises ?v1) p = Some n)"
  proof (cases "batch_of x")
    case Nil
    note f = perform_quiet [OF Nil quiet]
    from f(1-4) f(5) [OF p] p under_way completed show ?thesis by (simp add: Nil)
  next
    case (Cons r rs)
    note b = perform_batch [OF Cons]
    obtain out v1 where r: "receiveResults rt r v = (out, v1)"
      by (cases "receiveResults rt r v") auto
    have v1: "?v1 = v1" by (simp add: b(2) r)
    from calls have out: "out = Fulfilled" by (cases out) (simp_all add: Cons r)
    note f = receiveResults_Fulfilled_fields [OF r [unfolded out]]
    note g = receiveResults_fields [OF r]
    from start have r0: "res_requestStart r \<noteq> 0" by (simp add: Cons)
    have c: "activeRequests v1 = activeRequests v - int (length (results r))" by (rule f(1))
    have fr: "fresh (jobPromises v1) = fresh (jobPromises v)"
      using f(2) by (auto simp: resolve_fresh split: if_splits option.splits)
    have a: "resolveJobsPromiseWithNumberOfJobs v1 = Some p
         \<and> resolution (jobPromises v1) p = None \<and> requestsAtStart v1 = n"
      if "0 \<le> activeRequests v1" "activeRequests v1 \<noteq> 0"
    proof -
      from that c have "activeRequests v \<noteq> 0" by auto
      with under_way that(2) f(2) g(3) show ?thesis by simp
    qed
    have z: "resolveJobsPromiseWithNumberOfJobs v1 = None
         \<and> resolution (jobPromises v1) p = Some n"
      if "activeRequests v1 = 0"
    proof (cases "activeRequests v = 0")
      case True
      with completed that f(2) r0 show ?thesis by simp
    next
      case False
      with under_way that f(2) r0 show ?thesis by (simp add: resolve_pending)
    qed
    from c fr p a z show ?thesis unfolding v1 by (simp add: Cons b(1))
  qed
  then show "activeRequests (perform rt x v) =
      activeRequests v - (\<Sum>b\<leftarrow>batch_of x. int (length (results b)))"
    and "p < fresh (jobPromises (perform rt x v))"
    and "0 \<le> activeRequests (perform rt x v) \<Longrightarrow> activeRequests (perform rt x v) \<noteq> 0 \<Longrightarrow>
      resolveJobsPromiseWithNumberOfJobs (perform rt x v) = Some p
      \<and> resolution (jobPromises (perform rt x v)) p = None
      \<and> requestsAtStart (perform rt x v) = n"
    and "0 \<le> activeRequests (perform rt x v) \<Longrightarrow> activeRequests (perform rt x v) = 0 \<Longrightarrow>
      resolveJobsPromiseWithNumberOfJobs (perform rt x v) = None
      \<and> resolution (jobPromises (perform rt x v)) p = Some n"
    by simp_all
qed

lemma batches_nonneg: "0 \<le> (\<Sum>b\<leftarrow>bs. int (length (results b)))"
  by (rule sum_list_nonneg) auto

lemma wave_progress:
  assumes "requests_posted (perform_all rt ops v) = requests_posted v"
    and "Rejected \<notin> set (outcomes rt ops v)"
    and "(\<Sum>b\<leftarrow>batches_of ops. int (length (results b))) = activeRequests v"
    and "\<forall>b\<in>set (batches_of ops). res_requestStart b \<noteq> 0"
    and "p < fresh (jobPromises v)"
    and "activeRequests v \<noteq> 0 \<longrightarrow> resolveJobsPromiseWithNumberOfJobs v = Some p
           \<and> resolution (jobPromises v) p = None \<and> requestsAtStart v = n"
    and "activeRequests v = 0 \<longrightarrow> resolveJobsPromiseWithNumberOfJobs v = None
           \<and> resolution (jobPromises v) p = Some n"
  shows "activeRequests (perform_all rt ops v) = 0
    \<and> resolution (jobPromises (perform_all rt ops v)) p = Some n
    \<and> returns_to_zero (activeRequests v # counter_after rt ops v) =
        (if activeRequests v = 0 then 0 else 1)"
  using assms
proof (induction ops arbitrary: v)
  case Nil
  then show ?case by (simp add: batches_of_def)
next
  case (Cons x ops)
  let ?v1 = "perform rt x v"
  note q = quiet_run_split [OF Cons.prems(1)]
  from Cons.prems(2)
  have o1: "Rejected \<notin> set (map (\<lambda>r. fst (receiveResults rt r v)) (batch_of x))"
    and o2: "Rejected \<notin> set (outcomes rt ops ?v1)"
    by simp_all
  have bs: "batches_of (x # ops) = batch_of x @ batches_of ops" by (simp add: batches_of_def)
  from Cons.prems(4) have s1: "\<forall>b\<in>set (batch_of x). res_requestStart b \<noteq> 0"
    and s2: "\<forall>b\<in>set (batches_of ops). res_requestStart b \<noteq> 0"
    by (simp_all add: bs)
  note w = wave_step [OF q(1) o1 s1 Cons.prems(5,6,7)]
  have sum: "(\<Sum>b\<leftarrow>batches_of ops. int (length (results b))) = activeRequests ?v1"
    using Cons.prems(3) w(1) by (simp add: bs)
  then have nonneg: "0 \<le> activeRequests ?v1" using batches_nonneg [of "batches_of ops"] by simp
  have a: "activeRequests ?v1 \<noteq> 0 \<longrightarrow> resolveJobsPromiseWithNumberOfJobs ?v1 = Some p
           \<and> resolution (jobPromises ?v1) p = None \<and> requestsAtStart ?v1 = n"
    using w(3) [OF nonneg] by blast
  have z: "activeRequests ?v1 = 0 \<longrightarrow> resolveJobsPromiseWithNumberOfJobs ?v1 = None
           \<and> resolution (jobPromises ?v1) p = Some n"
    using w(4) [OF nonneg] by blast
  from Cons.IH [OF q(2) o2 sum s2 w(2) a z]
  have ih: "activeRequests (perform_all rt ops ?v1) = 0"
    "resolution (jobPromises (perform_all rt ops ?v1)) p = Some n"
    "returns_to_zero (activeRequests ?v1 # counter_after rt ops ?v1) =
       (if activeRequests ?v1 = 0 then 0 else 1)"
    by simp_all
  have "activeRequests v = 0 \<Longrightarrow> activeRequests ?v1 = 0"
    using w(1) nonneg batches_nonneg [of "batch_of x"] by simp
  with ih show ?case by auto
qed

text \<open>
  C1, as the code has it. Take any state reached from the constructor in which no wave is
  in flight (\<open>activeRequests\<close> is 0) and the table holds N > 0 jobs. \<open>submitUpdateJobs\<close>
  posts one request with the N jobs and returns a pending promise. Take any operations
  after it, in any order, of which none dispatches a further wave (the requests posted
  stay the same). Once \<open>receiveResults\<close> has handled batches that together hold N results,
  each batch carrying a start marker that is not zero and no call rejected by a failing
  \<open>recordTimeline\<close>, the counter has arrived at 0 exactly once, it is 0 at the end, and the
  promise is resolved with N.
\<close>

theorem wave_completes:
  assumes "u = perform_all rt xs (new_BatchingTimelineUpdater d)"
    and "activeRequests u = 0"
    and "requests u \<noteq> []"
    and "submitUpdateJobs now u = (p, u1)"
    and "u2 = perform_all rt ops u1"
    and "requests_posted u2 = requests_posted u1"
    and "(\<Sum>b\<leftarrow>batches_of ops. length (results b)) = length (requests u)"
    and "\<forall>b\<in>set (batches_of ops). res_requestStart b \<noteq> 0"
    and "Rejected \<notin> set (outcomes rt ops u1)"
  shows "posted (worker u1) =
      posted (worker u) @ [Request \<lparr>jobs = map_values (requests u), requestStart = now\<rparr>]
    \<and> resolution (jobPromises u1) p = None
    \<and> activeRequests u1 = int (length (requests u))
    \<and> returns_to_zero (activeRequests u1 # counter_after rt ops u1) = 1
    \<and> activeRequests u2 = 0
    \<and> resolution (jobPromises u2) p = Some (int (length (requests u)))"
proof -
  have ok: "updater_ok u"
    unfolding assms(1) by (rule updater_ok_perform_all) (rule updater_ok_new)
  note s = submitUpdateJobs_dispatch [OF assms(3,4)]
  have pending: "resolution (jobPromises u1) p = None"
    using ok s(1,5) by (simp add: updater_ok_def)
  have n: "activeRequests u1 = int (length (requests u))"
    using s(2) assms(2) by simp
  have pos: "activeRequests u1 \<noteq> 0" using n assms(3) by simp
  have lt: "p < fresh (jobPromises u1)" using s(1,7) by simp
  have sum: "(\<Sum>b\<leftarrow>batches_of ops. int (length (results b))) = activeRequests u1"
  proof -
    have "(\<Sum>b\<leftarrow>bs. int (length (results b))) = int (\<Sum>b\<leftarrow>bs. length (results b))"
      for bs :: "'a compute_results list"
      by (induction bs) simp_all
    with assms(7) n show ?thesis by simp
  qed
  have "activeRequests (perform_all rt ops u1) = 0
    \<and> resolution (jobPromises (perform_all rt ops u1)) p = Some (int (length (requests u)))
    \<and> returns_to_zero (activeRequests u1 # counter_after rt ops u1) =
        (if activeRequests u1 = 0 then 0 else 1)"
    by (rule wave_progress [OF assms(6) [unfolded assms(5)] assms(9) sum assms(8) lt])
      (use pos pending s(3,4) assms(2) in simp_all)
  with pos pending n s(6) show ?thesis by (simp add: assms(5))
qed

lemma job_id_examples:
  "job_id 2 1 3 = ''2-1-3''" "job_id 5 4 6 = ''5-4-6''" "job_id 5 4 (- 1) = ''5-4--1''"
  "job_id 8 7 9 = ''8-7-9''"
  by (simp_all add: job_id_def string_of_int_def string_of_nat.simps digit_char_def)

lemma example_updater_requests:
  "requests (example_updater 6) =
     [(''2-1-3'', \<lparr>runId = 1, trialId = 2, criterion = 3, dataForCriterion = [1]\<rparr>),
      (''5-4-6'', \<lparr>runId = 4, trialId = 5, criterion = 6, dataForCriterion = [2]\<rparr>)]"
  "activeRequests (example_updater 6) = 0"
  by (simp_all add: example_updater_def addValues_def job_id_examples without_missing_def
      new_BatchingTimelineUpdater_def)

lemmas example_run =
  example_updater_def example_wave_def addValues_def job_id_examples
  without_missing_def new_BatchingTimelineUpdater_def new_TimelineWorker_def
  submitUpdateJobs_def consumeUpdateJobsForBenchmarking_def processUpdateJobs_def
  map_values_def new_promise_def no_promises_def sendRequest_def receiveResults_def
  processResponse_def shutdown_def worker_shutdown_def async_return_def
  example_recordTimeline_def example_result_def resolve_def Let_def
  batches_of_def requests_posted_def calls_made_def

theorem wave_completes_witness:
  "activeRequests (example_updater 6) = 0
   \<and> length (requests (example_updater 6)) = 2
   \<and> activeRequests (snd (submitUpdateJobs 7 (example_updater 6))) = 2
   \<and> counter_after example_recordTimeline (example_wave 6 7)
        (snd (submitUpdateJobs 7 (example_updater 6))) = [1, 1, 0, 0]
   \<and> returns_to_zero (activeRequests (snd (submitUpdateJobs 7 (example_updater 6))) #
        counter_after example_recordTimeline (example_wave 6 7)
          (snd (submitUpdateJobs 7 (example_updater 6)))) = 1
   \<and> activeRequests (perform_all example_recordTimeline (example_wave 6 7)
        (snd (submitUpdateJobs 7 (example_updater 6)))) = 0
   \<and> resolution (jobPromises (perform_all example_recordTimeline (example_wave 6 7)
        (snd (submitUpdateJobs 7 (example_updater 6)))))
        (fst (submitUpdateJobs 7 (example_updater 6))) = Some 2
   \<and> map fst (requests (perform_all example_recordTimeline (example_wave 6 7)
        (snd (submitUpdateJobs 7 (example_updater 6))))) = [''8-7-9'']"
proof -
  let ?u1 = "snd (submitUpdateJobs 7 (example_updater 6))"
  let ?u2 = "perform_all example_recordTimeline (example_wave 6 7) ?u1"
  have h1: "example_updater 6 = perform_all example_recordTimeline
       [AddValues 1 2 3 [Some 1], AddValues 4 5 6 [Some 2, None]]
       (new_BatchingTimelineUpdater [])"
    by (simp add: example_updater_def)
  have h2: "activeRequests (example_updater 6) = 0" by (simp add: example_updater_requests)
  have h3: "requests (example_updater 6) \<noteq> []" by (simp add: example_updater_requests)
  have h4: "submitUpdateJobs 7 (example_updater 6) =
      (fst (submitUpdateJobs 7 (example_updater 6)), ?u1)"
    by simp
  have h6: "requests_posted ?u2 = requests_posted ?u1" by (simp add: example_run)
  have h7: "(\<Sum>b\<leftarrow>batches_of (example_wave 6 7). length (results b)) =
      length (requests (example_updater 6))"
    by (simp add: example_wave_def batches_of_def example_updater_requests)
  have h8: "\<forall>b\<in>set (batches_of (example_wave 6 7)). res_requestStart b \<noteq> 0"
    by (simp add: example_wave_def batches_of_def)
  have h9: "Rejected \<notin> set (outcomes example_recordTimeline (example_wave 6 7) ?u1)"
    by (simp add: example_run)
  have c: "counter_after example_recordTimeline (example_wave 6 7) ?u1 = [1, 1, 0, 0]"
    by (simp add: example_run)
  have r: "map fst (requests ?u2) = [''8-7-9'']" by (simp add: example_run)
  show ?thesis
    using wave_completes [OF h1 h2 h3 h4 refl h6 h7 h8 h9] h2 c r
    by (auto simp: example_updater_requests)
qed

text \<open>
  C1 as stated fails in two ways. In both runs the wave dispatches two jobs while the
  counter is 0, no other request is posted, and the batches handled hold the two results.
  With a start marker of 0 the counter returns to 0, yet the guard on \<open>requestStart\<close>
  leaves the promise pending. And when \<open>recordTimeline\<close> fails on the first batch, the
  counter stays at 1 and the promise pending.
\<close>

theorem wave_claim_counterexample:
  "activeRequests (example_updater 6) = 0
   \<and> length (requests (example_updater 6)) = 2
   \<and> (\<Sum>b\<leftarrow>batches_of (example_wave 6 0). length (results b)) = 2
   \<and> requests_posted (perform_all example_recordTimeline (example_wave 6 0)
        (snd (submitUpdateJobs 0 (example_updater 6)))) =
      requests_posted (snd (submitUpdateJobs 0 (example_updater 6)))
   \<and> outcomes example_recordTimeline (example_wave 6 0)
        (snd (submitUpdateJobs 0 (example_updater 6))) = [Fulfilled, Fulfilled]
   \<and> activeRequests (perform_all example_recordTimeline (example_wave 6 0)
        (snd (submitUpdateJobs 0 (example_updater 6)))) = 0
   \<and> resolution (jobPromises (perform_all example_recordTimeline (example_wave 6 0)
        (snd (submitUpdateJobs 0 (example_updater 6)))))
        (fst (submitUpdateJobs 0 (example_updater 6))) = None
   \<and> activeRequests (example_updater (- 1)) = 0
   \<and> length (requests (example_updater (- 1))) = 2
   \<and> (\<Sum>b\<leftarrow>batches_of (example_wave (- 1) 7). length (results b)) = 2
   \<and> requests_posted (perform_all example_recordTimeline (example_wave (- 1) 7)
        (snd (submitUpdateJobs 7 (example_updater (- 1))))) =
      requests_posted (snd (submitUpdateJobs 7 (example_updater (- 1))))
   \<and> outcomes example_recordTimeline (example_wave (- 1) 7)
        (snd (submitUpdateJobs 7 (example_updater (- 1)))) = [Rejected, Fulfilled]
   \<and> activeRequests (perform_all example_recordTimeline (example_wave (- 1) 7)
        (snd (submitUpdateJobs 7 (example_updater (- 1))))) = 1
   \<and> resolution (jobPromises (perform_all example_recordTimeline (example_wave (- 1) 7)
        (snd (submitUpdateJobs 7 (example_updater (- 1))))))
        (fst (submitUpdateJobs 7 (example_updater (- 1)))) = None"
  by (simp add: example_run)


lemma later_store_refl: "later_store ps ps"
  by (simp add: later_store_def)

lemma later_store_trans: "later_store a b \<Longrightarrow> later_store b c \<Longrightarrow> later_store a c"
  by (auto simp: later_store_def)

lemma handle_of_later:
  assumes "handle_of ps h p" and "later_store ps ps'"
  shows "handle_of ps' h p"
proof -
  from assms(1) obtain w where w: "adopts ps h = Some w" "adopts ps w = Some p"
    "adopts ps p = None" "p < w" "w < h" "h < fresh ps"
    by (auto simp: handle_of_def split: option.splits)
  from w(4-6) assms(2) have "adopts ps' h = adopts ps h" "adopts ps' w = adopts ps w"
    "adopts ps' p = adopts ps p" "h < fresh ps'"
    by (simp_all add: later_store_def)
  with w show ?thesis by (simp add: handle_of_def)
qed

lemma handle_state:
  assumes "handle_of ps h p"
  shows "promise_state ps h = resolution ps p"
proof -
  from assms obtain w where w: "adopts ps h = Some w" "adopts ps w = Some p"
    "adopts ps p = None" "p < w" "w < h"
    by (auto simp: handle_of_def split: option.splits)
  have "promise_state ps h = promise_state ps w"
    using w(1,5) by (simp add: promise_state.simps [of ps h])
  also have "\<dots> = promise_state ps p"
    using w(2,4) by (simp add: promise_state.simps [of ps w])
  also have "\<dots> = resolution ps p"
    using w(3) by (simp add: promise_state.simps [of ps p])
  finally show ?thesis .
qed

text \<open>A call of shutdown after the first one, and the first one.\<close>

lemma shutdown_again:
  assumes "shutdownPromise (worker u) = Some p" and "shutdown u = (h, u1)"
  shows "h = Suc (fresh (voidPromises u))" and "u1\<lparr>voidPromises := voidPromises u\<rparr> = u"
    and "worker u1 = worker u"
    and "resolution (voidPromises u1) = resolution (voidPromises u)"
    and "later_store (voidPromises u) (voidPromises u1)"
    and "p < fresh (voidPromises u) \<Longrightarrow> adopts (voidPromises u) p = None \<Longrightarrow>
      handle_of (voidPromises u1) h p"
  using assms
  by (auto simp: shutdown_def worker_shutdown_def async_return_def later_store_def
      handle_of_def Let_def)

lemma shutdown_first:
  assumes "shutdownPromise (worker u) = None" and "shutdown u = (h, u1)"
  shows "shutdownPromise (worker u1) = Some (fresh (voidPromises u))"
    and "shutdownResolve (worker u1) = Some (fresh (voidPromises u))"
    and "resolution (voidPromises u1) = resolution (voidPromises u)"
    and "exits_posted u1 = Suc (exits_posted u)"
    and "adopts (voidPromises u) (fresh (voidPromises u)) = None \<Longrightarrow>
      handle_of (voidPromises u1) h (fresh (voidPromises u))"
    and "fresh (voidPromises u) < fresh (voidPromises u1)"
  using assms
  by (auto simp: shutdown_def worker_shutdown_def new_promise_def async_return_def
      exits_posted_def handle_of_def Let_def)

text \<open>What an operation other than shutdown and the exit acknowledgement leaves alone.\<close>

lemma perform_worker_frame:
  assumes "x \<noteq> Shutdown" and "x \<noteq> ProcessResponse Exiting"
  shows "shutdownPromise (worker (perform rt x u)) = shutdownPromise (worker u)
    \<and> shutdownResolve (worker (perform rt x u)) = shutdownResolve (worker u)
    \<and> terminateCalled (worker (perform rt x u)) = terminateCalled (worker u)
    \<and> voidPromises (perform rt x u) = voidPromises u
    \<and> exits_posted (perform rt x u) = exits_posted u"
proof (cases x)
  case (AddValues r t c vs)
  show ?thesis unfolding AddValues
    by (simp add: addValues_def exits_posted_def Let_def split: option.splits)
next
  case (SubmitUpdateJobs now)
  show ?thesis unfolding SubmitUpdateJobs
    by (simp add: submitUpdateJobs_def consumeUpdateJobsForBenchmarking_def
        processUpdateJobs_def promise_resolve_def new_promise_def sendRequest_def
        exits_posted_def Let_def)
next
  case (ReceiveResults r)
  obtain out u1 where r: "receiveResults rt r u = (out, u1)"
    by (cases "receiveResults rt r u") auto
  from receiveResults_fields [OF r] show ?thesis unfolding ReceiveResults
    by (simp add: r exits_posted_def)
next
  case ConsumeUpdateJobsForBenchmarking
  show ?thesis unfolding ConsumeUpdateJobsForBenchmarking
    by (simp add: consumeUpdateJobsForBenchmarking_def exits_posted_def)
next
  case (ProcessUpdateJobsForBenchmarking js start)
  show ?thesis unfolding ProcessUpdateJobsForBenchmarking
    by (simp add: processUpdateJobsForBenchmarking_snd
        processUpdateJobs_def promise_resolve_def new_promise_def sendRequest_def
        exits_posted_def Let_def)
next
  case Shutdown
  with assms show ?thesis by simp
next
  case (ProcessResponse message)
  with assms obtain r where m: "message = Results r" by (cases message) auto
  obtain out u1 where r: "receiveResults rt r u = (out, u1)"
    by (cases "receiveResults rt r u") auto
  from receiveResults_fields [OF r] show ?thesis unfolding ProcessResponse m
    by (simp add: processResponse_def r exits_posted_def)
next
  case WorkerError
  show ?thesis unfolding WorkerError by (simp add: on_error_def exits_posted_def)
next
  case (WorkerExit exitCode)
  show ?thesis unfolding WorkerExit by (simp add: on_exit_def exits_posted_def)
qed

lemma exiting_effect:
  "shutdownPromise (worker (processResponse rt Exiting u)) = shutdownPromise (worker u)
   \<and> shutdownResolve (worker (processResponse rt Exiting u)) = shutdownResolve (worker u)
   \<and> terminateCalled (worker (processResponse rt Exiting u))
   \<and> exits_posted (processResponse rt Exiting u) = exits_posted u
   \<and> voidPromises (processResponse rt Exiting u) =
       (case shutdownResolve (worker u) of
          Some p \<Rightarrow> resolve p () (voidPromises u) | None \<Rightarrow> voidPromises u)"
  by (simp add: processResponse_def exits_posted_def Let_def split: option.splits)

lemma perform_later_store: "later_store (voidPromises u) (voidPromises (perform rt x u))"
proof (cases "x = Shutdown")
  case True
  then show ?thesis
    by (simp add: shutdown_def worker_shutdown_def new_promise_def async_return_def
        later_store_def Let_def split: option.splits)
next
  case False
  show ?thesis
  proof (cases "x = ProcessResponse Exiting")
    case True
    with exiting_effect [of rt u] show ?thesis
      by (simp add: later_store_def resolve_fresh resolve_adopts split: option.splits)
  next
    case e: False
    with False perform_worker_frame [of x rt u] show ?thesis by (simp add: later_store_refl)
  qed
qed

lemma perform_all_later_store:
  "later_store (voidPromises u) (voidPromises (perform_all rt xs u))"
proof (induction xs arbitrary: u)
  case Nil
  show ?case by (simp add: later_store_refl)
next
  case (Cons x xs)
  have a: "later_store (voidPromises u) (voidPromises (perform rt x u))"
    by (rule perform_later_store)
  have b: "later_store (voidPromises (perform rt x u))
      (voidPromises (perform_all rt xs (perform rt x u)))"
    by (rule Cons)
  from later_store_trans [OF a b] show ?case by simp
qed

lemma not_shut_down_perform:
  assumes "not_shut_down u" and "x \<noteq> Shutdown"
  shows "not_shut_down (perform rt x u)"
proof (cases "x = ProcessResponse Exiting")
  case True
  with assms(1) exiting_effect [of rt u] show ?thesis by (simp add: not_shut_down_def)
next
  case False
  with assms perform_worker_frame [of x rt u] show ?thesis by (simp add: not_shut_down_def)
qed

lemma not_shut_down_perform_all:
  "not_shut_down u \<Longrightarrow> Shutdown \<notin> set xs \<Longrightarrow> not_shut_down (perform_all rt xs u)"
proof (induction xs arbitrary: u)
  case Nil
  then show ?case by simp
next
  case (Cons x xs)
  from Cons.prems have "x \<noteq> Shutdown" and "Shutdown \<notin> set xs" by auto
  with Cons.IH [OF not_shut_down_perform [OF Cons.prems(1), of x rt]] show ?case by simp
qed

lemma shutting_down_perform:
  assumes "shutting_down p a u"
  shows "shutting_down p (a \<or> x = ProcessResponse Exiting) (perform rt x u)"
proof (cases "x = Shutdown")
  case True
  obtain h u1 where s: "shutdown u = (h, u1)" by (cases "shutdown u") auto
  from assms have k: "shutdownPromise (worker u) = Some p" by (simp add: shutting_down_def)
  note f = shutdown_again [OF k s]
  from f(5) assms have "p < fresh (voidPromises u1)" "adopts (voidPromises u1) p = None"
    by (simp_all add: later_store_def shutting_down_def)
  with assms f(3,4) show ?thesis
    by (simp add: True s shutting_down_def exits_posted_def)
next
  case False
  show ?thesis
  proof (cases "x = ProcessResponse Exiting")
    case True
    with assms exiting_effect [of rt u] show ?thesis
      by (auto simp: shutting_down_def resolve_def)
  next
    case e: False
    with False assms perform_worker_frame [of x rt u] show ?thesis
      by (simp add: shutting_down_def)
  qed
qed

lemma shutting_down_perform_all:
  "shutting_down p a u \<Longrightarrow>
   shutting_down p (a \<or> ProcessResponse Exiting \<in> set xs) (perform_all rt xs u)"
proof (induction xs arbitrary: u a)
  case Nil
  then show ?case by simp
next
  case (Cons x xs)
  from Cons.IH [OF shutting_down_perform [OF Cons.prems, of x rt]]
  show ?case by (simp add: disj_ac eq_commute)
qed

text \<open>
  C9, as the code has it. Take the first call of \<open>shutdown\<close> on an updater (after any
  operations that are not a shutdown), any operations after it, a later call of
  \<open>shutdown\<close>, and any operations after that one. The later call returns a promise that is
  not the one the first call returned, and changes nothing but the store of promises: one
  exit message was posted in all. The promise of the first call is pending when it is
  returned. Both promises are resolved exactly when the handler of the worker's messages
  has received the exit acknowledgement, and then \<open>terminate\<close> has been called on the
  worker.
\<close>

theorem shutdown_idempotent:
  assumes "Shutdown \<notin> set before"
    and "u0 = perform_all rt before (new_BatchingTimelineUpdater d)"
    and "shutdown u0 = (h1, u1)"
    and "u2 = perform_all rt later u1"
    and "shutdown u2 = (h2, u3)"
    and "u4 = perform_all rt afterwards u3"
  shows "h2 \<noteq> h1
    \<and> u3\<lparr>voidPromises := voidPromises u2\<rparr> = u2
    \<and> exits_posted u4 = 1
    \<and> promise_state (voidPromises u1) h1 = None
    \<and> promise_state (voidPromises u4) h1 =
        (if ProcessResponse Exiting \<in> set (later @ afterwards) then Some () else None)
    \<and> promise_state (voidPromises u4) h2 =
        (if ProcessResponse Exiting \<in> set (later @ afterwards) then Some () else None)
    \<and> (ProcessResponse Exiting \<in> set (later @ afterwards) \<longrightarrow> terminateCalled (worker u4))"
proof -
  let ?p = "fresh (voidPromises u0)"
  let ?a = "ProcessResponse Exiting \<in> set later"
  let ?b = "ProcessResponse Exiting \<in> set (later @ afterwards)"
  have ok: "updater_ok u0"
    unfolding assms(2) by (rule updater_ok_perform_all) (rule updater_ok_new)
  then have fresh0: "resolution (voidPromises u0) ?p = None" "adopts (voidPromises u0) ?p = None"
    by (simp_all add: updater_ok_def)
  have "not_shut_down (new_BatchingTimelineUpdater d)"
    by (simp add: not_shut_down_def new_BatchingTimelineUpdater_def new_TimelineWorker_def
        exits_posted_def)
  then have n: "not_shut_down u0"
    unfolding assms(2) using assms(1) by (rule not_shut_down_perform_all)
  then have none: "shutdownPromise (worker u0) = None" by (simp add: not_shut_down_def)
  note f = shutdown_first [OF none assms(3)]
  have hd1: "handle_of (voidPromises u1) h1 ?p" using fresh0(2) by (rule f(5))
  then have ad1: "adopts (voidPromises u1) ?p = None"
    by (auto simp: handle_of_def split: option.splits)
  have sd1: "shutting_down ?p False u1"
    using f(1-4,6) fresh0(1) ad1 n by (simp add: shutting_down_def not_shut_down_def)
  have pending: "promise_state (voidPromises u1) h1 = None"
    using handle_state [OF hd1] sd1 by (simp add: shutting_down_def)
  from shutting_down_perform_all [OF sd1, of later rt]
  have sd2: "shutting_down ?p ?a u2" by (simp add: assms(4))
  have hd2: "handle_of (voidPromises u2) h1 ?p"
    using hd1 unfolding assms(4) by (rule handle_of_later) (rule perform_all_later_store)
  from sd2 have k: "shutdownPromise (worker u2) = Some ?p" "?p < fresh (voidPromises u2)"
    "adopts (voidPromises u2) ?p = None"
    by (simp_all add: shutting_down_def)
  note g = shutdown_again [OF k(1) assms(5)]
  have "h1 < fresh (voidPromises u2)" using hd2 by (auto simp: handle_of_def split: option.splits)
  with g(1) have ne: "h2 \<noteq> h1" by simp
  have hd3: "handle_of (voidPromises u3) h1 ?p" using hd2 g(5) by (rule handle_of_later)
  have hd3': "handle_of (voidPromises u3) h2 ?p" using k(2,3) by (rule g(6))
  from shutting_down_perform [OF sd2, of Shutdown rt]
  have sd3: "shutting_down ?p ?a u3" by (simp add: assms(5))
  from shutting_down_perform_all [OF sd3, of afterwards rt]
  have sd4: "shutting_down ?p ?b u4" by (simp add: assms(6))
  have l: "later_store (voidPromises u3) (voidPromises u4)"
    unfolding assms(6) by (rule perform_all_later_store)
  have s1: "promise_state (voidPromises u4) h1 = resolution (voidPromises u4) ?p"
    by (rule handle_state) (rule handle_of_later [OF hd3 l])
  have s2: "promise_state (voidPromises u4) h2 = resolution (voidPromises u4) ?p"
    by (rule handle_state) (rule handle_of_later [OF hd3' l])
  from sd4 have r: "resolution (voidPromises u4) ?p = (if ?b then Some () else None)"
    "?b \<longrightarrow> terminateCalled (worker u4)" "exits_posted u4 = 1"
    unfolding shutting_down_def by blast+
  show ?thesis
  proof (intro conjI)
    show "h2 \<noteq> h1" by (rule ne)
    show "u3\<lparr>voidPromises := voidPromises u2\<rparr> = u2" by (rule g(2))
    show "exits_posted u4 = 1" by (rule r(3))
    show "promise_state (voidPromises u1) h1 = None" by (rule pending)
    show "promise_state (voidPromises u4) h1 = (if ?b then Some () else None)"
      unfolding s1 by (rule r(1))
    show "promise_state (voidPromises u4) h2 = (if ?b then Some () else None)"
      unfolding s2 by (rule r(1))
    show "?b \<longrightarrow> terminateCalled (worker u4)" by (rule r(2))
  qed
qed

lemmas example_shutdown_run =
  example_shutdown_def perform_all.simps perform.simps shutdown_def worker_shutdown_def
  new_promise_def async_return_def addValues_def processResponse_def
  submitUpdateJobs_def consumeUpdateJobsForBenchmarking_def processUpdateJobs_def
  map_values_def sendRequest_def job_id_examples without_missing_def resolve_def
  new_BatchingTimelineUpdater_def new_TimelineWorker_def no_promises_def on_exit_def
  exits_posted_def Let_def

theorem shutdown_idempotent_witness:
  "Shutdown \<notin> set ([AddValues 1 2 3 [Some 1], ProcessResponse Exiting] :: unit operation list)
   \<and> fst (shutdown (perform_all example_recordTimeline
        [AddValues 1 2 3 [Some 1], ProcessResponse Exiting] (new_BatchingTimelineUpdater []))) = 2
   \<and> fst (shutdown (example_shutdown [AddValues 1 2 3 [Some 1], ProcessResponse Exiting]
        [Shutdown, SubmitUpdateJobs 7])) = 6
   \<and> promise_state (voidPromises (snd (shutdown
        (example_shutdown [AddValues 1 2 3 [Some 1], ProcessResponse Exiting]
          [Shutdown, SubmitUpdateJobs 7])))) 2 = None
   \<and> promise_state (voidPromises (perform_all example_recordTimeline
        [ProcessResponse Exiting, WorkerExit 0]
        (snd (shutdown (example_shutdown [AddValues 1 2 3 [Some 1], ProcessResponse Exiting]
          [Shutdown, SubmitUpdateJobs 7]))))) 2 = Some ()
   \<and> promise_state (voidPromises (perform_all example_recordTimeline
        [ProcessResponse Exiting, WorkerExit 0]
        (snd (shutdown (example_shutdown [AddValues 1 2 3 [Some 1], ProcessResponse Exiting]
          [Shutdown, SubmitUpdateJobs 7]))))) 6 = Some ()
   \<and> exits_posted (perform_all example_recordTimeline
        [ProcessResponse Exiting, WorkerExit 0]
        (snd (shutdown (example_shutdown [AddValues 1 2 3 [Some 1], ProcessResponse Exiting]
          [Shutdown, SubmitUpdateJobs 7])))) = 1"
proof -
  let ?before = "[AddValues 1 2 3 [Some 1], ProcessResponse Exiting] :: unit operation list"
  let ?later = "[Shutdown, SubmitUpdateJobs 7] :: unit operation list"
  let ?u0 = "perform_all example_recordTimeline ?before (new_BatchingTimelineUpdater [])"
  let ?u2 = "example_shutdown ?before ?later"
  have h1: "Shutdown \<notin> set ?before" by simp
  have "fst (shutdown ?u0) = 2" by (simp add: example_shutdown_run)
  then have h3: "shutdown ?u0 = (2, snd (shutdown ?u0))" by (metis prod.collapse)
  have h4: "?u2 = perform_all example_recordTimeline ?later (snd (shutdown ?u0))"
    by (simp only: example_shutdown_def)
  have "fst (shutdown ?u2) = 6" by (simp add: example_shutdown_run)
  then have h5: "shutdown ?u2 = (6, snd (shutdown ?u2))" by (metis prod.collapse)
  note t = shutdown_idempotent [OF h1 refl h3 h4 h5 refl,
      of "[ProcessResponse Exiting, WorkerExit 0]"]
  note t0 = shutdown_idempotent [OF h1 refl h3 h4 h5 refl, of "[]"]
  have a: "ProcessResponse Exiting \<in> set (?later @ [ProcessResponse Exiting, WorkerExit 0])"
    and b: "ProcessResponse Exiting \<notin> set (?later @ [])"
    by simp_all
  note c = t [THEN conjunct2, THEN conjunct2]
  note c0 = t0 [THEN conjunct2, THEN conjunct2, THEN conjunct2, THEN conjunct2, THEN conjunct1]
  from c a have
    "exits_posted (perform_all example_recordTimeline [ProcessResponse Exiting, WorkerExit 0]
        (snd (shutdown ?u2))) = 1"
    "promise_state (voidPromises (perform_all example_recordTimeline
        [ProcessResponse Exiting, WorkerExit 0] (snd (shutdown ?u2)))) 2 = Some ()"
    "promise_state (voidPromises (perform_all example_recordTimeline
        [ProcessResponse Exiting, WorkerExit 0] (snd (shutdown ?u2)))) 6 = Some ()"
    by (simp_all only: if_True)
  moreover from c0 b have "promise_state (voidPromises (snd (shutdown ?u2))) 2 = None"
    by (simp only: if_False perform_all.simps)
  ultimately show ?thesis
    using h1 \<open>fst (shutdown ?u0) = 2\<close> \<open>fst (shutdown ?u2) = 6\<close>
    by - (intro conjI; assumption)
qed

text \<open>
  C9 as stated fails in two ways. The method is \<^verbatim>\<open>async\<close>, so the second call returns a
  promise that is not the one the first call returned. And the promise of the first call
  is resolved as soon as the exit acknowledgement is handled: \<open>terminate\<close> has been called
  then, but the call is not awaited, and the exit of the thread has not been seen.
\<close>

theorem shutdown_claim_counterexample:
  "fst (shutdown (new_BatchingTimelineUpdater [] :: (unit, int list) batching_timeline_updater)) = 2
   \<and> fst (shutdown (example_shutdown [] [])) = 4
   \<and> promise_state (voidPromises (example_shutdown [] [ProcessResponse Exiting])) 2 = Some ()
   \<and> terminateCalled (worker (example_shutdown [] [ProcessResponse Exiting]))
   \<and> logged (worker (example_shutdown [] [ProcessResponse Exiting])) = []"
  by (simp add: example_shutdown_run promise_state.simps)

section \<open>Properties of the collation\<close>

lemma collate_three:
  "byExeSuiteBench (collate_rows simplify
       [at_cell 1 1 10 row, at_cell 1 2 20 row, at_cell 2 1 30 row] new_collation) =
   [(exe row, [(suite row,
      \<lparr>benchmarks = [(bench row,
         \<lparr>pr_exe = exe row, pr_suite = suite row, pr_bench = bench row,
          measurements =
            [\<lparr>m_criterion = \<lparr>name = row_criterion row, unit = row_unit row\<rparr>,
              m_values = \<lparr>alength = Suc (Suc 0),
                 aelems = [0 \<mapsto> \<lparr>alength = Suc (Suc 0), aelems = [0 \<mapsto> 10, 1 \<mapsto> 20]\<rparr>,
                           1 \<mapsto> \<lparr>alength = Suc 0, aelems = [0 \<mapsto> 30]\<rparr>]\<rparr>,
              envId = envid row, commitId = commitid row,
              runSettings = \<lparr>rs_cmdline = cmdline row, varValue = varvalue row,
                 rs_cores = cores row, inputSize = inputsize row, extraArgs = extraargs row,
                 rs_warmup = warmup row, simplifiedCmdline = simplify (cmdline row)\<rparr>,
              m_runId = runid row, m_trialId = trialid row, expId = expid row\<rparr>]\<rparr>)],
       criteria = object_set [] (row_criterion row)
         \<lparr>name = row_criterion row, unit = row_unit row\<rparr>\<rparr>)])]"
  by (simp add: collate_row_def new_collation_def at_cell_def findOrConstructProcessedResult_def
      findOrConstructMeasurements_def findMeasurements_def matches_def store_value_def
      array_set_def empty_array_def is_index_def Let_def)


text \<open>
  C7. Three rows of one series, at (invocation 1, iteration 1) with value 10, at (1, 2)
  with value 20 and at (2, 1) with value 30, collate into one series, the only leaf of the
  structure, whose grid of values is [[10, 20], [30]]: the one-based invocation and
  iteration are stored at the zero-based slots.
\<close>

theorem three_rows_one_series:
  "map (\<lambda>(k, vals). (k, grid_list vals))
     (leaves (collateMeasurements ck simplify
        [at_cell 1 1 10 row, at_cell 1 2 20 row, at_cell 2 1 30 row])) =
   [(row_series row, [Some [Some 10, Some 20], Some [Some 30]])]"
  unfolding collateMeasurements_def collate_three
  by (simp add: sortResultsAlphabetically_def sort_entries_def new_Map_def leaves_def
      series_key_def row_series_def grid_list_def to_list_def)

lemma find_position_None: "find_position P xs = None \<longleftrightarrow> (\<forall>x\<in>set xs. \<not> P x)"
  by (induction xs) auto

lemma find_position_Some:
  "find_position P xs = Some i \<Longrightarrow> i < length xs \<and> P (xs ! i)"
  by (induction xs arbitrary: i) (auto split: if_splits)

lemma map_get_empty_default:
  "map_get (case map_get m k of None \<Rightarrow> [] | Some x \<Rightarrow> x) k' =
     (case map_get m k of None \<Rightarrow> None | Some x \<Rightarrow> map_get x k')"
  by (simp split: option.splits)

lemma map_set_twice: "map_set (map_set m k v) k v' = map_set m k v'"
  by (induction m) auto

lemma result_before_alt:
  "result_before st row =
     (case map_get (benchmarks (forSuite_before st row)) (bench row) of
        Some x \<Rightarrow> x
      | None \<Rightarrow> \<lparr>pr_exe = exe row, pr_suite = suite row, pr_bench = bench row, measurements = []\<rparr>)"
  by (simp add: result_before_def lookup3_def lookup2_def forSuite_before_def forExe_before_def
      split: option.splits)

lemma criteria_before_alt: "criteria_before st row = criteria (forSuite_before st row)"
  by (simp add: criteria_before_def lookup2_def forSuite_before_def forExe_before_def
      split: option.splits)

lemma collate_row_byExe:
  "byExeSuiteBench (collate_row simplify row st) =
     map_set (byExeSuiteBench st) (exe row)
       (map_set (forExe_before st row) (suite row)
          \<lparr>benchmarks = map_set (benchmarks (forSuite_before st row)) (bench row)
              ((result_before st row)\<lparr>measurements := series_after simplify st row\<rparr>),
           criteria = criteria_after st row\<rparr>)"
proof -
  let ?pr0 = "result_before st row"
  let ?rb0 = "forSuite_before st row"
  obtain bb where rb1: "findOrConstructProcessedResult ?rb0 row =
      (?pr0, \<lparr>benchmarks = bb, criteria = criteria ?rb0\<rparr>)"
    and b1: "map_set bb (bench row) x = map_set (benchmarks ?rb0) (bench row) x" for x
  proof (cases "map_get (benchmarks ?rb0) (bench row)")
    case None
    show ?thesis
      by (rule that [of "map_set (benchmarks ?rb0) (bench row) ?pr0"])
        (simp_all add: findOrConstructProcessedResult_def result_before_alt Let_def None
          map_set_twice)
  next
    case (Some x)
    show ?thesis
      by (rule that [of "benchmarks ?rb0"])
        (simp_all add: findOrConstructProcessedResult_def result_before_alt Let_def Some)
  qed
  show ?thesis
  proof (cases "find_position (\<lambda>mm. matches mm row) (measurements ?pr0)")
    case None
    then show ?thesis
      unfolding collate_row_def
      by (simp add: Let_def rb1 b1 findOrConstructMeasurements_def findMeasurements_def
          series_after_def criteria_after_def criteria_before_alt criterion_for_def
          runSetting_for_def forSuite_before_def [symmetric] forExe_before_def [symmetric]
          split: option.splits prod.splits)
  next
    case (Some i)
    then show ?thesis
      unfolding collate_row_def
      by (simp add: Let_def rb1 b1 findOrConstructMeasurements_def findMeasurements_def
          series_after_def criteria_after_def criteria_before_alt criterion_for_def
          runSetting_for_def forSuite_before_def [symmetric] forExe_before_def [symmetric]
          split: option.splits prod.splits)
  qed
qed


lemma lookup2_before:
  "map_get (forExe_before st row) s = lookup2 (byExeSuiteBench st) (exe row) s"
  by (simp add: forExe_before_def lookup2_def split: option.splits)

lemma lookup3_before:
  "map_get (benchmarks (forSuite_before st row)) b =
     lookup3 (byExeSuiteBench st) (exe row) (suite row) b"
  by (simp add: forSuite_before_def lookup3_def lookup2_before split: option.splits)

lemma collate_row_lookup2:
  "lookup2 (byExeSuiteBench (collate_row simplify row st)) e s =
     (if e = exe row \<and> s = suite row then
        Some \<lparr>benchmarks = map_set (benchmarks (forSuite_before st row)) (bench row)
                ((result_before st row)\<lparr>measurements := series_after simplify st row\<rparr>),
              criteria = criteria_after st row\<rparr>
      else lookup2 (byExeSuiteBench st) e s)"
proof (cases "e = exe row")
  case True
  show ?thesis
    unfolding collate_row_byExe lookup2_def [of "map_set _ _ _"] True
    by (simp add: map_get_map_set lookup2_before)
next
  case False
  then show ?thesis
    unfolding collate_row_byExe lookup2_def by (simp add: map_get_map_set)
qed

lemma collate_row_lookup3:
  "lookup3 (byExeSuiteBench (collate_row simplify row st)) e s b =
     (if e = exe row \<and> s = suite row \<and> b = bench row then
        Some ((result_before st row)\<lparr>measurements := series_after simplify st row\<rparr>)
      else lookup3 (byExeSuiteBench st) e s b)"
proof (cases "e = exe row \<and> s = suite row")
  case True
  then show ?thesis
    unfolding lookup3_def [of "byExeSuiteBench (collate_row simplify row st)"] collate_row_lookup2
    by (simp add: map_get_map_set lookup3_before)
next
  case False
  then show ?thesis
    unfolding lookup3_def collate_row_lookup2 by auto
qed

lemma split_at_char:
  "c \<notin> set a \<Longrightarrow> c \<notin> set b \<Longrightarrow> a @ c # r = b @ c # r' \<Longrightarrow> a = b \<and> r = r'"
proof (induction a arbitrary: b)
  case Nil
  then show ?case by (cases b) auto
next
  case (Cons x a)
  then show ?case by (cases b) auto
qed

lemma first_seen_snoc:
  "first_seen (xs @ [x]) = (if x \<in> set xs then first_seen xs else first_seen xs @ [x])"
  by (simp add: first_seen_def)

lemma set_first_seen: "set (first_seen xs) = set xs"
  by (simp add: first_seen_def)

lemma grid_of_snoc:
  "grid_of (data @ [row]) =
     store_value (grid_of data) (invocation row - 1) (iteration row - 1) (row_value row)"
  by (simp add: grid_of_def)

lemma matches_series_key: "matches mm row \<longleftrightarrow> series_key mm = row_series_id row"
  by (auto simp: matches_def series_key_def row_series_id_def)

lemma row_series_eq:
  "row_series row = (e, s, b, k) \<longleftrightarrow>
     exe row = e \<and> suite row = s \<and> bench row = b \<and> row_series_id row = k"
  by (auto simp: row_series_def row_series_id_def)

lemma result_of_rows_mem:
  "result_of_rows e s b pr data \<Longrightarrow> m \<in> set (measurements pr) \<Longrightarrow>
   m_values m = grid_of (filter (\<lambda>row. row_series row = (e, s, b, series_key m)) data) \<and>
   (e, s, b, series_key m) \<in> row_series ` set data"
  by (simp add: result_of_rows_def)

lemma result_of_rows_cover:
  "result_of_rows e s b pr data \<Longrightarrow> row \<in> set data \<Longrightarrow>
   exe row = e \<Longrightarrow> suite row = s \<Longrightarrow> bench row = b \<Longrightarrow>
   row_series_id row \<in> series_key ` set (measurements pr)"
  by (simp add: result_of_rows_def)

lemma result_of_rows_distinct:
  "result_of_rows e s b pr data \<Longrightarrow> distinct (map series_key (measurements pr))"
  by (simp add: result_of_rows_def)

lemma collation_of_rows_results:
  "collation_of_rows st data \<Longrightarrow> lookup3 (byExeSuiteBench st) e s b = Some pr \<Longrightarrow>
   result_of_rows e s b pr data"
  by (simp add: collation_of_rows_def)

lemma collation_of_rows_cover:
  "collation_of_rows st data \<Longrightarrow> row \<in> set data \<Longrightarrow>
   lookup3 (byExeSuiteBench st) (exe row) (suite row) (bench row) \<noteq> None"
  by (simp add: collation_of_rows_def)

lemma collation_of_rows_parts:
  assumes "collation_of_rows st data"
  shows "distinct_keys (byExeSuiteBench st)" and "criteria_ok st"
    and "criteria_in_order (byExeSuiteBench st) data"
  using assms by (simp_all add: collation_of_rows_def)

text \<open>A row of another benchmark leaves the description of a result as it is.\<close>

lemma result_of_rows_other:
  assumes "result_of_rows e s b pr data"
    and "\<not> (exe row = e \<and> suite row = s \<and> bench row = b)"
  shows "result_of_rows e s b pr (data @ [row])"
proof -
  have "filter (\<lambda>r. row_series r = (e, s, b, k)) (data @ [row]) =
      filter (\<lambda>r. row_series r = (e, s, b, k)) data" for k
    using assms(2) by (auto simp: row_series_eq)
  with assms show ?thesis
    unfolding result_of_rows_def by auto
qed

lemma result_of_rows_new:
  assumes "\<forall>r\<in>set data. \<not> (exe r = e \<and> suite r = s \<and> bench r = b)"
  shows "result_of_rows e s b
     \<lparr>pr_exe = e', pr_suite = s', pr_bench = b', measurements = []\<rparr> data"
  using assms unfolding result_of_rows_def by auto

text \<open>The row's own benchmark, when its series exists.\<close>

lemma result_of_rows_found:
  assumes r: "result_of_rows (exe row) (suite row) (bench row) pr data"
    and f: "find_position (\<lambda>mm. matches mm row) (measurements pr) = Some i"
  shows "result_of_rows (exe row) (suite row) (bench row)
     (pr\<lparr>measurements := (measurements pr)[i := (measurements pr ! i)\<lparr>m_values :=
        store_value (m_values (measurements pr ! i)) (invocation row - 1) (iteration row - 1)
          (row_value row)\<rparr>]\<rparr>)
     (data @ [row])"
proof -
  let ?ms = "measurements pr"
  let ?m' = "(?ms ! i)\<lparr>m_values :=
        store_value (m_values (?ms ! i)) (invocation row - 1) (iteration row - 1) (row_value row)\<rparr>"
  let ?e = "exe row" and ?s = "suite row" and ?b = "bench row"
  from find_position_Some [OF f] have i: "i < length ?ms" and k: "series_key (?ms ! i) = row_series_id row"
    by (simp_all add: matches_series_key)
  have d: "distinct (map series_key ?ms)" using r by (simp add: result_of_rows_def)
  have k': "series_key ?m' = series_key (?ms ! i)" by (simp add: series_key_def)
  have keys: "map series_key (?ms[i := ?m']) = map series_key ?ms"
    using i k' by (simp add: map_update list_update_same_conv)
  have mem: "?ms ! i \<in> set ?ms" using i by simp
  have vals: "m_values m = grid_of (filter (\<lambda>r. row_series r = (?e, ?s, ?b, series_key m)) (data @ [row]))
      \<and> (?e, ?s, ?b, series_key m) \<in> row_series ` set (data @ [row])"
    if m: "m \<in> set (?ms[i := ?m'])" for m
  proof (cases "m = ?m'")
    case True
    have old: "m_values (?ms ! i) =
        grid_of (filter (\<lambda>r. row_series r = (?e, ?s, ?b, series_key (?ms ! i))) data)"
      using r mem by (simp add: result_of_rows_def)
    have "filter (\<lambda>r. row_series r = (?e, ?s, ?b, row_series_id row)) (data @ [row]) =
        filter (\<lambda>r. row_series r = (?e, ?s, ?b, row_series_id row)) data @ [row]"
      by (simp add: row_series_eq)
    then show ?thesis
      unfolding True k' k using old k
      by (simp add: grid_of_snoc row_series_eq image_iff)
        (simp add: row_series_def row_series_id_def)
  next
    case False
    with m have m0: "m \<in> set ?ms" using set_update_subset_insert [of ?ms i ?m'] by auto
    from m False obtain j where j: "j < length ?ms" "j \<noteq> i" "m = ?ms ! j"
      by (metis in_set_conv_nth length_list_update nth_list_update_eq nth_list_update_neq)
    have "series_key m \<noteq> series_key (?ms ! i)"
      using d i j by (simp add: distinct_conv_nth)
    then have "filter (\<lambda>r. row_series r = (?e, ?s, ?b, series_key m)) (data @ [row]) =
        filter (\<lambda>r. row_series r = (?e, ?s, ?b, series_key m)) data"
      using k by (auto simp: row_series_eq)
    with r m0 show ?thesis by (auto simp: result_of_rows_def)
  qed
  have cover: "row_series_id r \<in> series_key ` set (?ms[i := ?m'])"
    if "r \<in> set (data @ [row])" "exe r = ?e \<and> suite r = ?s \<and> bench r = ?b" for r
  proof -
    have "row_series_id r \<in> set (map series_key ?ms)"
    proof (cases "r = row")
      case True
      then show ?thesis using k mem by (metis image_eqI set_map)
    next
      case False
      with that r show ?thesis by (auto simp: result_of_rows_def)
    qed
    then show ?thesis using keys by (metis set_map)
  qed
  show ?thesis
    unfolding result_of_rows_def using d keys vals cover by simp
qed

text \<open>The row's own benchmark, when its series is created.\<close>

lemma result_of_rows_created:
  assumes r: "result_of_rows (exe row) (suite row) (bench row) pr data"
    and f: "find_position (\<lambda>mm. matches mm row) (measurements pr) = None"
    and m: "series_key m = row_series_id row"
    and v: "m_values m =
      store_value empty_array (invocation row - 1) (iteration row - 1) (row_value row)"
  shows "result_of_rows (exe row) (suite row) (bench row)
     (pr\<lparr>measurements := measurements pr @ [m]\<rparr>) (data @ [row])"
proof -
  let ?ms = "measurements pr"
  let ?e = "exe row" and ?s = "suite row" and ?b = "bench row"
  from f have nomatch: "\<forall>x\<in>set ?ms. series_key x \<noteq> row_series_id row"
    by (simp add: find_position_None matches_series_key)
  have d: "distinct (map series_key (?ms @ [m]))"
    using r nomatch m by (auto simp: result_of_rows_def)
  have none_before: "filter (\<lambda>r. row_series r = (?e, ?s, ?b, row_series_id row)) data = []"
  proof -
    have "\<not> (exe x = ?e \<and> suite x = ?s \<and> bench x = ?b \<and> row_series_id x = row_series_id row)"
      if "x \<in> set data" for x
    proof
      assume a: "exe x = ?e \<and> suite x = ?s \<and> bench x = ?b \<and> row_series_id x = row_series_id row"
      from r have "\<forall>y\<in>set data. exe y = ?e \<and> suite y = ?s \<and> bench y = ?b \<longrightarrow>
          row_series_id y \<in> series_key ` set ?ms"
        by (simp add: result_of_rows_def)
      with that a have "row_series_id x \<in> series_key ` set ?ms" by blast
      with a nomatch show False by auto
    qed
    then show ?thesis by (auto simp: filter_empty_conv row_series_eq)
  qed
  have vals: "m_values x = grid_of (filter (\<lambda>r. row_series r = (?e, ?s, ?b, series_key x)) (data @ [row]))
      \<and> (?e, ?s, ?b, series_key x) \<in> row_series ` set (data @ [row])"
    if x: "x \<in> set (?ms @ [m])" for x
  proof (cases "x \<in> set ?ms")
    case True
    with nomatch have "series_key x \<noteq> row_series_id row" by simp
    then have "filter (\<lambda>r. row_series r = (?e, ?s, ?b, series_key x)) (data @ [row]) =
        filter (\<lambda>r. row_series r = (?e, ?s, ?b, series_key x)) data"
      by (auto simp: row_series_eq)
    with r True show ?thesis by (auto simp: result_of_rows_def)
  next
    case False
    with x have xm: "x = m" by simp
    have "filter (\<lambda>r. row_series r = (?e, ?s, ?b, row_series_id row)) (data @ [row]) = [row]"
      using none_before by (simp add: row_series_eq)
    then have "m_values m =
        grid_of (filter (\<lambda>r. row_series r = (?e, ?s, ?b, series_key m)) (data @ [row]))"
      unfolding m v by (simp add: grid_of_def)
    moreover have "(?e, ?s, ?b, series_key m) = row_series row"
      by (simp add: m row_series_def row_series_id_def)
    ultimately show ?thesis unfolding xm by simp
  qed
  have cover: "row_series_id x \<in> series_key ` set (?ms @ [m])"
    if "x \<in> set (data @ [row])" "exe x = ?e \<and> suite x = ?s \<and> bench x = ?b" for x
  proof (cases "x = row")
    case True
    then show ?thesis using m by (simp add: image_iff)
  next
    case False
    with that r show ?thesis by (auto simp: result_of_rows_def)
  qed
  show ?thesis
    unfolding result_of_rows_def using d vals cover by simp
qed

text \<open>The criterion object of a row carries the row's criterion name.\<close>

lemma criterion_for_name:
  assumes "criteria_ok st" and "no_bar (row_criterion row)"
  shows "name (criterion_for st row) = row_criterion row"
proof (cases "map_get (criteria_map st) (row_criterion row @ ''|'' @ row_unit row)")
  case None
  then show ?thesis by (simp add: criterion_for_def)
next
  case (Some x)
  then have "(row_criterion row @ ''|'' @ row_unit row, x) \<in> set (criteria_map st)"
    by (rule map_get_Some_mem)
  with assms(1) have k: "row_criterion row @ ''|'' @ row_unit row = name x @ ''|'' @ unit x"
    and n: "no_bar (name x)"
    unfolding criteria_ok_def by auto
  from k have "row_criterion row @ CHR ''|'' # row_unit row = name x @ CHR ''|'' # unit x"
    by simp
  from split_at_char [OF _ _ this] assms(2) n have "row_criterion row = name x"
    by (simp add: no_bar_def)
  with Some show ?thesis by (simp add: criterion_for_def)
qed

lemma collate_row_criteria_map:
  "criteria_map (collate_row simplify row st) =
     (case map_get (criteria_map st) (row_criterion row @ ''|'' @ row_unit row) of
        Some x \<Rightarrow> criteria_map st
      | None \<Rightarrow> map_set (criteria_map st) (row_criterion row @ ''|'' @ row_unit row)
          \<lparr>name = row_criterion row, unit = row_unit row\<rparr>)"
  unfolding collate_row_def
  by (simp add: Let_def split: prod.splits option.splits)

lemma criteria_ok_collate_row:
  assumes "criteria_ok st" and "no_bar (row_criterion row)"
  shows "criteria_ok (collate_row simplify row st)"
proof (cases "map_get (criteria_map st) (row_criterion row @ ''|'' @ row_unit row)")
  case None
  have "set (criteria_map (collate_row simplify row st)) \<subseteq>
      insert (row_criterion row @ ''|'' @ row_unit row,
        \<lparr>name = row_criterion row, unit = row_unit row\<rparr>) (set (criteria_map st))"
    unfolding collate_row_criteria_map None by (simp add: set_map_set_subset)
  with assms show ?thesis unfolding criteria_ok_def by auto
next
  case (Some x)
  with assms show ?thesis unfolding criteria_ok_def collate_row_criteria_map by simp
qed

lemma distinct_keys_empty: "distinct_keys []"
  by (simp add: distinct_keys_def)

lemma forExe_before_distinct:
  assumes "distinct_keys (byExeSuiteBench st)"
  shows "distinct (map fst (forExe_before st row))"
    and "\<forall>(s, byBench) \<in> set (forExe_before st row). distinct (map fst (benchmarks byBench))"
proof -
  show "distinct (map fst (forExe_before st row))"
  proof (cases "map_get (byExeSuiteBench st) (exe row)")
    case None
    then show ?thesis by (simp add: forExe_before_def)
  next
    case (Some x)
    from map_get_Some_mem [OF this] assms show ?thesis
      by (auto simp: forExe_before_def Some distinct_keys_def)
  qed
  show "\<forall>(s, byBench) \<in> set (forExe_before st row). distinct (map fst (benchmarks byBench))"
  proof (cases "map_get (byExeSuiteBench st) (exe row)")
    case None
    then show ?thesis by (simp add: forExe_before_def)
  next
    case (Some x)
    from map_get_Some_mem [OF this] assms show ?thesis
      by (auto simp: forExe_before_def Some distinct_keys_def)
  qed
qed

lemma forSuite_before_distinct:
  assumes "distinct_keys (byExeSuiteBench st)"
  shows "distinct (map fst (benchmarks (forSuite_before st row)))"
proof (cases "map_get (forExe_before st row) (suite row)")
  case None
  then show ?thesis by (simp add: forSuite_before_def)
next
  case (Some x)
  from map_get_Some_mem [OF this] forExe_before_distinct(2) [OF assms, of row] show ?thesis
    by (auto simp: forSuite_before_def Some)
qed

lemma distinct_keys_collate_row:
  assumes "distinct_keys (byExeSuiteBench st)"
  shows "distinct_keys (byExeSuiteBench (collate_row simplify row st))"
proof -
  define rb where "rb = \<lparr>benchmarks = map_set (benchmarks (forSuite_before st row)) (bench row)
              ((result_before st row)\<lparr>measurements := series_after simplify st row\<rparr>),
           criteria = criteria_after st row\<rparr>"
  define fe where "fe = map_set (forExe_before st row) (suite row) rb"
  have rb: "distinct (map fst (benchmarks rb))"
    using forSuite_before_distinct [OF assms, of row] by (simp add: rb_def distinct_map_set)
  have fe1: "distinct (map fst fe)"
    unfolding fe_def using forExe_before_distinct(1) [OF assms, of row] by (rule distinct_map_set)
  have fe2: "distinct (map fst (benchmarks byBench))" if "(s, byBench) \<in> set fe" for s byBench
  proof -
    from that have "(s, byBench) = (suite row, rb) \<or> (s, byBench) \<in> set (forExe_before st row)"
      unfolding fe_def using set_map_set_subset [of "forExe_before st row" "suite row" rb] by auto
    then show ?thesis
      using rb forExe_before_distinct(2) [OF assms, of row] by auto
  qed
  have eq: "byExeSuiteBench (collate_row simplify row st) =
      map_set (byExeSuiteBench st) (exe row) fe"
    by (simp add: collate_row_byExe fe_def rb_def)
  have sub: "set (map_set (byExeSuiteBench st) (exe row) fe) \<subseteq>
      insert (exe row, fe) (set (byExeSuiteBench st))"
    by (rule set_map_set_subset)
  have d: "distinct (map fst (map_set (byExeSuiteBench st) (exe row) fe))"
    using assms by (simp add: distinct_keys_def distinct_map_set)
  have inner: "distinct (map fst bySuite) \<and>
      (\<forall>(s, byBench) \<in> set bySuite. distinct (map fst (benchmarks byBench)))"
    if "(e, bySuite) \<in> set (map_set (byExeSuiteBench st) (exe row) fe)" for e bySuite
  proof -
    from that sub have "(e, bySuite) = (exe row, fe) \<or> (e, bySuite) \<in> set (byExeSuiteBench st)"
      by auto
    then show ?thesis
    proof
      assume "(e, bySuite) = (exe row, fe)"
      with fe1 fe2 show ?thesis by auto
    next
      assume "(e, bySuite) \<in> set (byExeSuiteBench st)"
      with assms show ?thesis unfolding distinct_keys_def by blast
    qed
  qed
  show ?thesis
    unfolding eq distinct_keys_def using d inner by blast
qed

text \<open>The criteria of a suite after a row.\<close>

lemma lookup3_lookup2:
  "lookup3 byExe e s b = Some benchResult \<Longrightarrow> \<exists>byBench. lookup2 byExe e s = Some byBench"
  by (simp add: lookup3_def split: option.splits)

lemma recorded_names_snoc:
  "recorded_names e s (data @ [row]) =
     (if exe row = e \<and> suite row = s \<and> row_criterion row \<noteq> ''__proto__''
      then recorded_names e s data @ [row_criterion row] else recorded_names e s data)"
  by (simp add: recorded_names_def)

lemma criteria_before_in_order:
  assumes inv: "collation_of_rows st data"
  shows "map fst (criteria_before st row) = first_seen (recorded_names (exe row) (suite row) data)"
proof (cases "lookup2 (byExeSuiteBench st) (exe row) (suite row)")
  case (Some x)
  from collation_of_rows_parts(3) [OF inv] Some show ?thesis
    by (simp add: criteria_before_def criteria_in_order_def)
next
  case None
  have "\<not> (exe r = exe row \<and> suite r = suite row)" if "r \<in> set data" for r
  proof
    assume a: "exe r = exe row \<and> suite r = suite row"
    from collation_of_rows_cover [OF inv that] obtain pr where
      "lookup3 (byExeSuiteBench st) (exe r) (suite r) (bench r) = Some pr" by blast
    from lookup3_lookup2 [OF this] a None show False by simp
  qed
  then have "filter (\<lambda>r. exe r = exe row \<and> suite r = suite row) data = []"
    by (simp add: filter_empty_conv)
  with None show ?thesis by (simp add: criteria_before_def first_seen_def recorded_names_def)
qed

lemma found_series_seen:
  assumes inv: "collation_of_rows st data"
    and f: "find_position (\<lambda>mm. matches mm row) (measurements (result_before st row)) = Some i"
  shows "row_criterion row \<in>
     set (map row_criterion (filter (\<lambda>r. exe r = exe row \<and> suite r = suite row) data))"
proof -
  from find_position_Some [OF f] have i: "i < length (measurements (result_before st row))"
    and k: "series_key (measurements (result_before st row) ! i) = row_series_id row"
    by (simp_all add: matches_series_key)
  from i have ne: "measurements (result_before st row) \<noteq> []" by auto
  then obtain pr where pr: "lookup3 (byExeSuiteBench st) (exe row) (suite row) (bench row) = Some pr"
    and pr0: "result_before st row = pr"
    by (cases "lookup3 (byExeSuiteBench st) (exe row) (suite row) (bench row)")
      (simp_all add: result_before_def)
  from i pr0 have "measurements pr ! i \<in> set (measurements pr)" by simp
  from result_of_rows_mem [OF collation_of_rows_results [OF inv pr] this] k pr0
  have "(exe row, suite row, bench row, row_series_id row) \<in> row_series ` set data"
    by simp
  then obtain r where r: "r \<in> set data"
    "row_series r = (exe row, suite row, bench row, row_series_id row)"
    by auto
  from r(2) have "exe r = exe row" "suite r = suite row" "row_criterion r = row_criterion row"
    by (simp_all add: row_series_def row_series_id_def)
  with r(1) have "r \<in> set (filter (\<lambda>r. exe r = exe row \<and> suite r = suite row) data)"
    by simp
  then have "row_criterion r \<in>
     set (map row_criterion (filter (\<lambda>r. exe r = exe row \<and> suite r = suite row) data))"
    by (simp only: set_map) (rule imageI)
  then show ?thesis by (simp only: \<open>row_criterion r = row_criterion row\<close>)
qed

lemma criteria_after_in_order:
  assumes inv: "collation_of_rows st data" and nb: "no_bar (row_criterion row)"
  shows "map fst (criteria_after st row) =
     first_seen (recorded_names (exe row) (suite row) (data @ [row]))"
proof (cases "row_criterion row = ''__proto__''")
  case True
  have nm: "name (criterion_for st row) = row_criterion row"
    using collation_of_rows_parts(2) [OF inv] nb by (rule criterion_for_name)
  have "criteria_after st row = criteria_before st row"
    by (simp add: criteria_after_def object_set_def nm True split: option.splits)
  with criteria_before_in_order [OF inv, of row] True show ?thesis
    by (simp add: recorded_names_snoc)
next
  case False
  let ?names = "recorded_names (exe row) (suite row) data"
  note before = criteria_before_in_order [OF inv, of row]
  have n: "recorded_names (exe row) (suite row) (data @ [row]) = ?names @ [row_criterion row]"
    using False by (simp add: recorded_names_snoc)
  have keys: "fst ` set (criteria_before st row) = set ?names"
  proof -
    have "fst ` set (criteria_before st row) = set (map fst (criteria_before st row))" by simp
    also have "\<dots> = set ?names" unfolding before by (rule set_first_seen)
    finally show ?thesis .
  qed
  show ?thesis
  proof (cases "find_position (\<lambda>mm. matches mm row) (measurements (result_before st row))")
    case None
    have nm: "name (criterion_for st row) = row_criterion row"
      using collation_of_rows_parts(2) [OF inv] nb by (rule criterion_for_name)
    show ?thesis
    proof (cases "row_criterion row \<in> set ?names")
      case True
      with keys have "row_criterion row \<in> fst ` set (criteria_before st row)" by simp
      then have "map fst (criteria_after st row) = map fst (criteria_before st row)"
        by (simp add: criteria_after_def object_set_def None nm False map_set_present)
      with True before show ?thesis unfolding n by (simp only: first_seen_snoc if_True)
    next
      case not_in: False
      with keys have "row_criterion row \<notin> fst ` set (criteria_before st row)" by simp
      then have "map fst (criteria_after st row) =
          map fst (criteria_before st row) @ [row_criterion row]"
        by (simp add: criteria_after_def object_set_def None nm False map_set_absent)
      with not_in before show ?thesis unfolding n by (simp only: first_seen_snoc if_False)
    qed
  next
    case (Some i)
    from found_series_seen [OF inv Some] False have "row_criterion row \<in> set ?names"
      by (simp add: recorded_names_def)
    moreover have "map fst (criteria_after st row) = map fst (criteria_before st row)"
      by (simp add: criteria_after_def Some)
    ultimately show ?thesis using before unfolding n by (simp only: first_seen_snoc if_True)
  qed
qed

lemma criteria_in_order_collate_row:
  assumes inv: "collation_of_rows st data" and nb: "no_bar (row_criterion row)"
  shows "criteria_in_order (byExeSuiteBench (collate_row simplify row st)) (data @ [row])"
  unfolding criteria_in_order_def
proof (intro allI impI)
  fix e s byBench
  assume l: "lookup2 (byExeSuiteBench (collate_row simplify row st)) e s = Some byBench"
  show "map fst (criteria byBench) = first_seen (recorded_names e s (data @ [row]))"
  proof (cases "e = exe row \<and> s = suite row")
    case False
    then have "recorded_names e s (data @ [row]) = recorded_names e s data"
      by (auto simp: recorded_names_snoc)
    moreover from False l have "lookup2 (byExeSuiteBench st) e s = Some byBench"
      by (simp add: collate_row_lookup2 split: if_splits)
    ultimately show ?thesis
      using collation_of_rows_parts(3) [OF inv] by (simp add: criteria_in_order_def)
  next
    case True
    then have e: "e = exe row" and s: "s = suite row" by simp_all
    from l have "byBench = \<lparr>benchmarks = map_set (benchmarks (forSuite_before st row)) (bench row)
                ((result_before st row)\<lparr>measurements := series_after simplify st row\<rparr>),
              criteria = criteria_after st row\<rparr>"
      unfolding collate_row_lookup2 e s by simp
    then have c: "criteria byBench = criteria_after st row" by simp
    show ?thesis
      unfolding c e s by (rule criteria_after_in_order [OF inv nb])
  qed
qed

lemma result_before_of_rows:
  assumes "collation_of_rows st data"
  shows "result_of_rows (exe row) (suite row) (bench row) (result_before st row) data"
proof (cases "lookup3 (byExeSuiteBench st) (exe row) (suite row) (bench row)")
  case (Some pr)
  with collation_of_rows_results [OF assms Some] show ?thesis by (simp add: result_before_def)
next
  case None
  have "\<not> (exe r = exe row \<and> suite r = suite row \<and> bench r = bench row)" if "r \<in> set data" for r
  proof
    assume "exe r = exe row \<and> suite r = suite row \<and> bench r = bench row"
    moreover from assms that have "lookup3 (byExeSuiteBench st) (exe r) (suite r) (bench r) \<noteq> None"
      by (rule collation_of_rows_cover)
    ultimately show False using None by simp
  qed
  then show ?thesis
    unfolding result_before_def None by (simp add: result_of_rows_new)
qed

lemma result_after_of_rows:
  assumes inv: "collation_of_rows st data" and nb: "no_bar (row_criterion row)"
  shows "result_of_rows (exe row) (suite row) (bench row)
     ((result_before st row)\<lparr>measurements := series_after simplify st row\<rparr>) (data @ [row])"
proof (cases "find_position (\<lambda>mm. matches mm row) (measurements (result_before st row))")
  case None
  from inv have "criteria_ok st" by (simp add: collation_of_rows_def)
  then have nm: "name (criterion_for st row) = row_criterion row"
    using nb by (rule criterion_for_name)
  show ?thesis
    unfolding series_after_def Let_def None option.case
    by (rule result_of_rows_created [OF result_before_of_rows [OF inv] None])
      (simp_all add: series_key_def row_series_id_def nm)
next
  case (Some i)
  show ?thesis
    unfolding series_after_def Let_def Some option.case
    by (rule result_of_rows_found [OF result_before_of_rows [OF inv] Some])
qed

lemma collation_of_rows_collate_row:
  assumes inv: "collation_of_rows st data" and nb: "no_bar (row_criterion row)"
  shows "collation_of_rows (collate_row simplify row st) (data @ [row])"
  unfolding collation_of_rows_def
proof (intro conjI allI impI ballI)
  show "distinct_keys (byExeSuiteBench (collate_row simplify row st))"
    using inv by (simp add: collation_of_rows_def distinct_keys_collate_row)
  show "criteria_ok (collate_row simplify row st)"
    using inv nb by (simp add: collation_of_rows_def criteria_ok_collate_row)
  show "criteria_in_order (byExeSuiteBench (collate_row simplify row st)) (data @ [row])"
    using inv nb by (rule criteria_in_order_collate_row)
next
  fix e s b pr
  assume l: "lookup3 (byExeSuiteBench (collate_row simplify row st)) e s b = Some pr"
  show "result_of_rows e s b pr (data @ [row])"
  proof (cases "e = exe row \<and> s = suite row \<and> b = bench row")
    case True
    with l have "pr = (result_before st row)\<lparr>measurements := series_after simplify st row\<rparr>"
      by (simp add: collate_row_lookup3)
    with True result_after_of_rows [OF inv nb, of simplify] show ?thesis by simp
  next
    case False
    with l have "lookup3 (byExeSuiteBench st) e s b = Some pr"
      by (simp add: collate_row_lookup3 split: if_splits)
    with inv have "result_of_rows e s b pr data" by (simp add: collation_of_rows_def)
    then show ?thesis using False by (intro result_of_rows_other) auto
  qed
next
  fix r
  assume "r \<in> set (data @ [row])"
  with inv show "lookup3 (byExeSuiteBench (collate_row simplify row st)) (exe r) (suite r) (bench r) \<noteq> None"
    by (auto simp: collate_row_lookup3 collation_of_rows_def)
qed

lemma collation_of_rows_new: "collation_of_rows new_collation []"
  by (simp add: collation_of_rows_def new_collation_def distinct_keys_def criteria_ok_def
      criteria_in_order_def lookup3_def lookup2_def)

lemma collation_of_rows_collate_rows:
  assumes "collation_of_rows st seen" and "\<forall>r\<in>set data. no_bar (row_criterion r)"
  shows "collation_of_rows (collate_rows simplify data st) (seen @ data)"
  using assms
proof (induction data arbitrary: st seen)
  case Nil
  then show ?case by simp
next
  case (Cons row data)
  from Cons.prems have "collation_of_rows (collate_row simplify row st) (seen @ [row])"
    by (intro collation_of_rows_collate_row) simp_all
  from Cons.IH [OF this] Cons.prems(2) show ?case by simp
qed

lemma collation_of_all_rows:
  assumes "\<forall>r\<in>set data. no_bar (row_criterion r)"
  shows "collation_of_rows (collate_rows simplify data new_collation) data"
  using collation_of_rows_collate_rows [OF collation_of_rows_new assms] by simp

text \<open>The leaves of a structure with distinct keys, by lookup.\<close>

lemma map_get_iff_mem:
  "distinct (map fst m) \<Longrightarrow> map_get m k = Some v \<longleftrightarrow> (k, v) \<in> set m"
  by (induction m) (auto simp: rev_image_eqI split: if_splits)

lemma leaves_mem:
  "((e, s, b, k), g) \<in> set (leaves byExe) \<longleftrightarrow>
     (\<exists>bySuite byBench benchResult m.
        (e, bySuite) \<in> set byExe \<and> (s, byBench) \<in> set bySuite \<and>
        (b, benchResult) \<in> set (benchmarks byBench) \<and> m \<in> set (measurements benchResult) \<and>
        k = series_key m \<and> g = m_values m)"
proof -
  have h: "set (leaves byExe) =
      (\<Union>p1\<in>set byExe. \<Union>p2\<in>set (snd p1). \<Union>p3\<in>set (benchmarks (snd p2)).
           (\<lambda>m. ((fst p1, fst p2, fst p3, series_key m), m_values m)) ` set (measurements (snd p3)))"
    by (simp add: leaves_def split_def)
  show ?thesis
  proof
    assume "((e, s, b, k), g) \<in> set (leaves byExe)"
    then obtain p1 p2 p3 m where p: "p1 \<in> set byExe" "p2 \<in> set (snd p1)"
      "p3 \<in> set (benchmarks (snd p2))" "m \<in> set (measurements (snd p3))"
      and eq: "((e, s, b, k), g) = ((fst p1, fst p2, fst p3, series_key m), m_values m)"
      unfolding h by blast
    from eq have "p1 = (e, snd p1)" "p2 = (s, snd p2)" "p3 = (b, snd p3)"
      "k = series_key m" "g = m_values m"
      by (simp_all add: prod_eq_iff)
    with p show "\<exists>bySuite byBench benchResult m.
        (e, bySuite) \<in> set byExe \<and> (s, byBench) \<in> set bySuite \<and>
        (b, benchResult) \<in> set (benchmarks byBench) \<and> m \<in> set (measurements benchResult) \<and>
        k = series_key m \<and> g = m_values m"
      by metis
  next
    assume "\<exists>bySuite byBench benchResult m.
        (e, bySuite) \<in> set byExe \<and> (s, byBench) \<in> set bySuite \<and>
        (b, benchResult) \<in> set (benchmarks byBench) \<and> m \<in> set (measurements benchResult) \<and>
        k = series_key m \<and> g = m_values m"
    then obtain bySuite byBench benchResult m where
      p: "(e, bySuite) \<in> set byExe" "(s, byBench) \<in> set bySuite"
        "(b, benchResult) \<in> set (benchmarks byBench)" "m \<in> set (measurements benchResult)"
        "k = series_key m" "g = m_values m"
      by blast
    show "((e, s, b, k), g) \<in> set (leaves byExe)"
      unfolding h
      apply (rule UN_I [OF p(1)])
      apply (simp only: snd_conv fst_conv)
      apply (rule UN_I [OF p(2)])
      apply (simp only: snd_conv fst_conv)
      apply (rule UN_I [OF p(3)])
      apply (simp only: snd_conv fst_conv p(5,6))
      apply (rule imageI [OF p(4)])
      done
  qed
qed


lemma lookup3_iff_mem:
  assumes "distinct_keys byExe"
  shows "lookup3 byExe e s b = Some benchResult \<longleftrightarrow>
     (\<exists>bySuite byBench. (e, bySuite) \<in> set byExe \<and> (s, byBench) \<in> set bySuite \<and>
        (b, benchResult) \<in> set (benchmarks byBench))"
proof
  assume "lookup3 byExe e s b = Some benchResult"
  then obtain bySuite byBench where "map_get byExe e = Some bySuite"
    "map_get bySuite s = Some byBench" "map_get (benchmarks byBench) b = Some benchResult"
    by (auto simp: lookup3_def lookup2_def split: option.splits)
  then show "\<exists>bySuite byBench. (e, bySuite) \<in> set byExe \<and> (s, byBench) \<in> set bySuite \<and>
        (b, benchResult) \<in> set (benchmarks byBench)"
    by (blast dest: map_get_Some_mem)
next
  assume "\<exists>bySuite byBench. (e, bySuite) \<in> set byExe \<and> (s, byBench) \<in> set bySuite \<and>
        (b, benchResult) \<in> set (benchmarks byBench)"
  then obtain bySuite byBench where m: "(e, bySuite) \<in> set byExe" "(s, byBench) \<in> set bySuite"
    "(b, benchResult) \<in> set (benchmarks byBench)" by blast
  from assms m have d: "distinct (map fst byExe)" "distinct (map fst bySuite)"
    "distinct (map fst (benchmarks byBench))"
    unfolding distinct_keys_def by blast+
  from m d have "map_get byExe e = Some bySuite" "map_get bySuite s = Some byBench"
    "map_get (benchmarks byBench) b = Some benchResult"
    by (simp_all add: map_get_iff_mem)
  then show "lookup3 byExe e s b = Some benchResult"
    by (simp add: lookup3_def lookup2_def)
qed

lemma leaf_content_lookup:
  assumes "distinct_keys byExe"
  shows "((e, s, b, k), g) \<in> leaf_content byExe \<longleftrightarrow>
     (\<exists>benchResult m. lookup3 byExe e s b = Some benchResult \<and>
        m \<in> set (measurements benchResult) \<and> k = series_key m \<and> g = m_values m)"
  unfolding leaf_content_def leaves_mem lookup3_iff_mem [OF assms] by blast

text \<open>The leaves of the pass: one for each series of the rows, with the grid that the rows
  of the series write in their order.\<close>

lemma leaf_content_of_rows:
  assumes "collation_of_rows st data"
  shows "leaf_content (byExeSuiteBench st) =
     (\<lambda>k. (k, grid_of (filter (\<lambda>r. row_series r = k) data))) ` row_series ` set data"
proof (intro set_eqI iffI)
  fix x
  assume x: "x \<in> leaf_content (byExeSuiteBench st)"
  obtain e s b k g where xe: "x = ((e, s, b, k), g)" by (cases x) auto
  from assms have d: "distinct_keys (byExeSuiteBench st)" by (simp add: collation_of_rows_def)
  from x obtain pr m where l: "lookup3 (byExeSuiteBench st) e s b = Some pr"
    and m: "m \<in> set (measurements pr)" "k = series_key m" "g = m_values m"
    unfolding xe leaf_content_lookup [OF d] by blast
  from assms l have "result_of_rows e s b pr data" by (simp add: collation_of_rows_def)
  with m have "g = grid_of (filter (\<lambda>r. row_series r = (e, s, b, k)) data)"
    and "(e, s, b, k) \<in> row_series ` set data"
    by (simp_all add: result_of_rows_def)
  then show "x \<in> (\<lambda>k. (k, grid_of (filter (\<lambda>r. row_series r = k) data))) ` row_series ` set data"
    unfolding xe by blast
next
  fix x
  assume "x \<in> (\<lambda>k. (k, grid_of (filter (\<lambda>r. row_series r = k) data))) ` row_series ` set data"
  then obtain r where r: "r \<in> set data"
    and x: "x = (row_series r, grid_of (filter (\<lambda>r'. row_series r' = row_series r) data))"
    by blast
  from assms have d: "distinct_keys (byExeSuiteBench st)" by (simp add: collation_of_rows_def)
  from assms r obtain pr where l: "lookup3 (byExeSuiteBench st) (exe r) (suite r) (bench r) = Some pr"
    by (auto simp: collation_of_rows_def)
  with assms have res: "result_of_rows (exe r) (suite r) (bench r) pr data"
    by (simp add: collation_of_rows_def)
  with r obtain m where m: "m \<in> set (measurements pr)" "series_key m = row_series_id r"
    unfolding result_of_rows_def by force
  have rs: "row_series r = (exe r, suite r, bench r, series_key m)"
    by (simp add: row_series_def m(2) row_series_id_def)
  from res m(1) have "m_values m = grid_of (filter (\<lambda>r'. row_series r' = row_series r) data)"
    unfolding result_of_rows_def rs by blast
  with l m show "x \<in> leaf_content (byExeSuiteBench st)"
    unfolding x rs leaf_content_lookup [OF d] by metis
qed

lemma fold_map_set_distinct:
  "distinct (map fst (acc @ es)) \<Longrightarrow> fold (\<lambda>(k, v) m. map_set m k v) es acc = acc @ es"
proof (induction es arbitrary: acc)
  case Nil
  then show ?case by simp
next
  case (Cons x es)
  obtain k v where x: "x = (k, v)" by (cases x) auto
  from Cons.prems have "k \<notin> fst ` set acc" by (auto simp: x)
  then have s: "map_set acc k v = acc @ [(k, v)]" by (rule map_set_absent)
  from Cons.prems have "distinct (map fst ((acc @ [(k, v)]) @ es))" by (simp add: x)
  from Cons.IH [OF this] show ?case by (simp add: x s)
qed

lemma new_Map_distinct: "distinct (map fst es) \<Longrightarrow> new_Map es = es"
  using fold_map_set_distinct [of "[]" es] by (simp add: new_Map_def)

lemma set_sort_entries: "set (sort_entries ck es) = set es"
  by (simp add: sort_entries_def)

lemma distinct_sort_entries:
  "distinct (map fst (sort_entries ck es)) \<longleftrightarrow> distinct (map fst es)"
proof -
  have "mset (map fst (sort_entries ck es)) = mset (map fst es)"
    by (simp add: sort_entries_def)
  then show ?thesis by (rule mset_eq_imp_distinct_iff)
qed

lemma sorted_sort_entries: "sorted (map ck (map fst (sort_entries ck es)))"
proof -
  have "sorted (map (\<lambda>e. ck (fst e)) (sort_key (\<lambda>e. ck (fst e)) es))"
    by (rule sorted_sort_key)
  then show ?thesis by (simp add: sort_entries_def comp_def)
qed

lemma keys_sorted_suites: "map fst (sorted_suites ck bySuite) = map fst (sort_entries ck bySuite)"
  by (simp add: sorted_suites_def split_def comp_def)

lemma sorted_suites_eq:
  assumes "distinct (map fst bySuite)"
    and "\<forall>(s, byBench) \<in> set bySuite. distinct (map fst (benchmarks byBench))"
  shows "new_Map (map (\<lambda>(s, byBench).
               (s, byBench\<lparr>benchmarks := new_Map (sort_entries ck (benchmarks byBench))\<rparr>))
             (sort_entries ck bySuite)) = sorted_suites ck bySuite"
proof -
  have a: "map (\<lambda>(s, byBench).
               (s, byBench\<lparr>benchmarks := new_Map (sort_entries ck (benchmarks byBench))\<rparr>))
             (sort_entries ck bySuite) = sorted_suites ck bySuite"
    unfolding sorted_suites_def
  proof (rule map_cong [OF refl])
    fix x
    assume "x \<in> set (sort_entries ck bySuite)"
    then have "x \<in> set bySuite" by (simp add: set_sort_entries)
    with assms(2) have "distinct (map fst (benchmarks (snd x)))" by (cases x) auto
    then have "new_Map (sort_entries ck (benchmarks (snd x))) = sort_entries ck (benchmarks (snd x))"
      by (intro new_Map_distinct) (simp add: distinct_sort_entries)
    then show "(case x of (s, byBench) \<Rightarrow>
          (s, byBench\<lparr>benchmarks := new_Map (sort_entries ck (benchmarks byBench))\<rparr>)) =
        (case x of (s, byBench) \<Rightarrow> (s, sorted_benchmarks ck byBench))"
      by (cases x) (simp add: sorted_benchmarks_def)
  qed
  have b: "new_Map (sorted_suites ck bySuite) = sorted_suites ck bySuite"
    by (rule new_Map_distinct) (simp add: keys_sorted_suites distinct_sort_entries assms(1))
  show ?thesis unfolding a by (rule b)
qed

lemma sortResultsAlphabetically_eq:
  assumes "distinct_keys byExe"
  shows "sortResultsAlphabetically ck byExe =
     map (\<lambda>(e, bySuite). (e, sorted_suites ck bySuite)) (sort_entries ck byExe)"
proof -
  have a: "map (\<lambda>(e, bySuiteBench).
         (e, new_Map (map (\<lambda>(s, byBench).
               (s, byBench\<lparr>benchmarks := new_Map (sort_entries ck (benchmarks byBench))\<rparr>))
             (sort_entries ck bySuiteBench))))
       (sort_entries ck byExe) =
     map (\<lambda>(e, bySuite). (e, sorted_suites ck bySuite)) (sort_entries ck byExe)"
  proof (rule map_cong [OF refl])
    fix x
    assume "x \<in> set (sort_entries ck byExe)"
    then have "x \<in> set byExe" by (simp add: set_sort_entries)
    moreover obtain e bySuite where xe: "x = (e, bySuite)" by (cases x) auto
    ultimately have "(e, bySuite) \<in> set byExe" by simp
    with assms have "distinct (map fst bySuite) \<and>
        (\<forall>(s, byBench) \<in> set bySuite. distinct (map fst (benchmarks byBench)))"
      unfolding distinct_keys_def by blast
    then have "distinct (map fst (snd x))"
      and "\<forall>(s, byBench) \<in> set (snd x). distinct (map fst (benchmarks byBench))"
      by (simp_all add: xe)
    from sorted_suites_eq [OF this, of ck]
    show "(case x of (e, bySuiteBench) \<Rightarrow>
         (e, new_Map (map (\<lambda>(s, byBench).
               (s, byBench\<lparr>benchmarks := new_Map (sort_entries ck (benchmarks byBench))\<rparr>))
             (sort_entries ck bySuiteBench)))) =
       (case x of (e, bySuite) \<Rightarrow> (e, sorted_suites ck bySuite))"
      by (cases x) simp
  qed
  have b: "new_Map (map (\<lambda>(e, bySuite). (e, sorted_suites ck bySuite)) (sort_entries ck byExe)) =
      map (\<lambda>(e, bySuite). (e, sorted_suites ck bySuite)) (sort_entries ck byExe)"
  proof (rule new_Map_distinct)
    have "map fst (map (\<lambda>(e, bySuite). (e, sorted_suites ck bySuite)) (sort_entries ck byExe)) =
        map fst (sort_entries ck byExe)"
      by (simp add: split_def comp_def)
    moreover have "distinct (map fst (sort_entries ck byExe))"
      using assms by (simp add: distinct_sort_entries distinct_keys_def)
    ultimately show "distinct (map fst (map (\<lambda>(e, bySuite). (e, sorted_suites ck bySuite))
        (sort_entries ck byExe)))"
      by (simp only:)
  qed
  show ?thesis unfolding sortResultsAlphabetically_def a by (rule b)
qed

text \<open>The entries of the sorted structure come from the entries of the structure.\<close>

lemma sorted_structure_exe:
  assumes "distinct_keys byExe" and "(e, bySuite') \<in> set (sortResultsAlphabetically ck byExe)"
  obtains bySuite where "(e, bySuite) \<in> set byExe" and "bySuite' = sorted_suites ck bySuite"
  using assms(2) unfolding sortResultsAlphabetically_eq [OF assms(1)]
  by (auto simp: set_sort_entries)

lemma sorted_structure_suite:
  assumes "(s, byBench') \<in> set (sorted_suites ck bySuite)"
  obtains byBench where "(s, byBench) \<in> set bySuite" and "byBench' = sorted_benchmarks ck byBench"
  using assms unfolding sorted_suites_def by (auto simp: set_sort_entries)

lemma leaves_sorted:
  assumes "distinct_keys byExe"
  shows "leaf_content (sortResultsAlphabetically ck byExe) = leaf_content byExe"
proof (intro set_eqI iffI)
  fix x :: "leaf_id \<times> real js_array js_array"
  obtain e s b k g where x: "x = ((e, s, b, k), g)" by (cases x) auto
  assume "x \<in> leaf_content (sortResultsAlphabetically ck byExe)"
  then obtain bySuite' byBench' pr m where m: "(e, bySuite') \<in> set (sortResultsAlphabetically ck byExe)"
    "(s, byBench') \<in> set bySuite'" "(b, pr) \<in> set (benchmarks byBench')"
    "m \<in> set (measurements pr)" "k = series_key m" "g = m_values m"
    unfolding x leaf_content_def leaves_mem by blast
  from sorted_structure_exe [OF assms m(1)] obtain bySuite where
    e: "(e, bySuite) \<in> set byExe" "bySuite' = sorted_suites ck bySuite" by blast
  from m(2) e(2) sorted_structure_suite obtain byBench where
    s: "(s, byBench) \<in> set bySuite" "byBench' = sorted_benchmarks ck byBench" by blast
  from m(3) s(2) have "(b, pr) \<in> set (benchmarks byBench)"
    by (simp add: sorted_benchmarks_def set_sort_entries)
  with e(1) s(1) m(4,5,6) show "x \<in> leaf_content byExe"
    unfolding x leaf_content_def leaves_mem by blast
next
  fix x :: "leaf_id \<times> real js_array js_array"
  obtain e s b k g where x: "x = ((e, s, b, k), g)" by (cases x) auto
  assume "x \<in> leaf_content byExe"
  then obtain bySuite byBench pr m where m: "(e, bySuite) \<in> set byExe"
    "(s, byBench) \<in> set bySuite" "(b, pr) \<in> set (benchmarks byBench)"
    "m \<in> set (measurements pr)" "k = series_key m" "g = m_values m"
    unfolding x leaf_content_def leaves_mem by blast
  from m(1) have 1: "(e, sorted_suites ck bySuite) \<in> set (sortResultsAlphabetically ck byExe)"
    unfolding sortResultsAlphabetically_eq [OF assms] by (force simp: set_sort_entries)
  from m(2) have 2: "(s, sorted_benchmarks ck byBench) \<in> set (sorted_suites ck bySuite)"
    unfolding sorted_suites_def by (force simp: set_sort_entries)
  from m(3) have 3: "(b, pr) \<in> set (benchmarks (sorted_benchmarks ck byBench))"
    by (simp add: sorted_benchmarks_def set_sort_entries)
  from 1 2 3 m(4,5,6) show "x \<in> leaf_content (sortResultsAlphabetically ck byExe)"
    unfolding x leaf_content_def leaves_mem by blast
qed

lemma array_set_commute:
  "i \<noteq> j \<Longrightarrow> array_set (array_set a i v) j w = array_set (array_set a j w) i v"
  by (auto simp: array_set_def fun_upd_twist max.commute max.left_commute)

lemma store_value_alt:
  "store_value vals i j v =
     \<lparr>alength = length_with vals i, aelems = (aelems vals)(i \<mapsto> array_set (row_at vals i) j v)\<rparr>"
  by (cases "aelems vals i")
    (simp_all add: store_value_def Let_def array_set_def row_at_def length_with_def)

lemma store_value_commute:
  assumes "(i, j) \<noteq> (i', j')"
  shows "store_value (store_value vals i j v) i' j' v' =
    store_value (store_value vals i' j' v') i j v"
proof (cases "i = i'")
  case True
  with assms have j: "j \<noteq> j'" by simp
  have "array_set (array_set (row_at vals i') j v) j' v' =
      array_set (array_set (row_at vals i') j' v') j v"
    using j by (rule array_set_commute)
  then show ?thesis
    unfolding True store_value_alt by (simp add: row_at_def length_with_def)
next
  case False
  have l: "length_with \<lparr>alength = length_with vals i, aelems = (aelems vals)(i \<mapsto> x)\<rparr> i' =
      length_with \<lparr>alength = length_with vals i', aelems = (aelems vals)(i' \<mapsto> y)\<rparr> i" for x y
    using False by (auto simp: length_with_def)
  have r: "row_at \<lparr>alength = n, aelems = (aelems vals)(i \<mapsto> x)\<rparr> i' = row_at vals i'"
    "row_at \<lparr>alength = n, aelems = (aelems vals)(i' \<mapsto> x)\<rparr> i = row_at vals i" for n x
    using False by (simp_all add: row_at_def)
  show ?thesis
    unfolding store_value_alt by (simp add: l r fun_upd_twist [OF False])
qed


text \<open>Rows that are written to different cells may come in any order.\<close>

lemma grid_of_permuted:
  assumes m: "mset data' = mset data" and d: "distinct (map row_cell data)"
    and k: "\<forall>r\<in>set data. row_series r = k"
  shows "grid_of data' = grid_of data"
  unfolding grid_of_def
proof (rule fold_permuted_eq [OF m, where P = "\<lambda>_. True"])
  fix x y and z :: "real js_array js_array"
  assume x: "x \<in> set data'" and y: "y \<in> set data'"
  from m have s: "set data' = set data" by (rule mset_eq_setD)
  show "store_value (store_value z (invocation y - 1) (iteration y - 1) (row_value y))
        (invocation x - 1) (iteration x - 1) (row_value x) =
      store_value (store_value z (invocation x - 1) (iteration x - 1) (row_value x))
        (invocation y - 1) (iteration y - 1) (row_value y)"
  proof (cases "x = y")
    case True
    then show ?thesis by simp
  next
    case False
    from d have "inj_on row_cell (set data)" by (simp add: distinct_map)
    with x y s False have "row_cell x \<noteq> row_cell y" by (auto dest: inj_onD)
    moreover from k x y s have "row_series x = row_series y" by simp
    ultimately have "(invocation y - 1, iteration y - 1) \<noteq> (invocation x - 1, iteration x - 1)"
      by (auto simp: row_cell_def)
    then show ?thesis by (rule store_value_commute)
  qed
qed simp_all

lemma grid_of_filter_permuted:
  assumes m: "mset data' = mset data" and d: "distinct (map row_cell data)"
  shows "grid_of (filter (\<lambda>r. row_series r = k) data') =
    grid_of (filter (\<lambda>r. row_series r = k) data)"
proof (rule grid_of_permuted)
  show "mset (filter (\<lambda>r. row_series r = k) data') = mset (filter (\<lambda>r. row_series r = k) data)"
    using m by (metis mset_filter)
  show "distinct (map row_cell (filter (\<lambda>r. row_series r = k) data))"
    using d by (rule distinct_map_filter)
  show "\<forall>r\<in>set (filter (\<lambda>r. row_series r = k) data). row_series r = k" by simp
qed

lemma leaf_content_collateMeasurements:
  assumes "\<forall>r\<in>set data. no_bar (row_criterion r)"
  shows "leaf_content (collateMeasurements ck simplify data) =
     (\<lambda>k. (k, grid_of (filter (\<lambda>r. row_series r = k) data))) ` row_series ` set data"
proof -
  note inv = collation_of_all_rows [OF assms, of simplify]
  show ?thesis
    unfolding collateMeasurements_def leaves_sorted [OF collation_of_rows_parts(1) [OF inv]]
    by (rule leaf_content_of_rows [OF inv])
qed

text \<open>
  C6, as the code has it. When no two rows are written to the same cell (the same
  execution unit, suite, benchmark, environment, commit, run, trial, criterion name,
  invocation and iteration) and no criterion name contains the bar that separates name and
  unit in the key of a criterion, every permutation of the rows collates to the same leaf
  content: the same series under the same execution units, suites and benchmarks, each
  with the same grid of values.
\<close>

theorem collate_permutation_invariant:
  assumes "mset data' = mset data"
    and "distinct (map row_cell data)"
    and "\<forall>row\<in>set data. no_bar (row_criterion row)"
  shows "leaf_content (collateMeasurements ck simplify data') =
    leaf_content (collateMeasurements ck simplify data)"
proof -
  from assms(1) have s: "set data' = set data" by (rule mset_eq_setD)
  with assms(3) have nb: "\<forall>row\<in>set data'. no_bar (row_criterion row)" by simp
  show ?thesis
    unfolding leaf_content_collateMeasurements [OF assms(3)]
      leaf_content_collateMeasurements [OF nb] s
      grid_of_filter_permuted [OF assms(1,2)] ..
qed

lemma example_cells:
  "row_cell (at_cell i j v example_row) =
     ((''A'', ''S'', ''B'', (1, ''c1'', 1, 1, ''total'')), i, j)"
  by (simp add: row_cell_def row_series_def at_cell_def example_row_def)

theorem collate_permutation_invariant_witness:
  "mset [at_cell 2 1 30 example_row, at_cell 1 1 10 example_row, at_cell 1 2 20 example_row] =
     mset [at_cell 1 1 10 example_row, at_cell 1 2 20 example_row, at_cell 2 1 30 example_row]
   \<and> distinct (map row_cell
        [at_cell 1 1 10 example_row, at_cell 1 2 20 example_row, at_cell 2 1 30 example_row])
   \<and> leaf_content (collateMeasurements numeric_key id
        [at_cell 2 1 30 example_row, at_cell 1 1 10 example_row, at_cell 1 2 20 example_row]) =
      leaf_content (collateMeasurements numeric_key id
        [at_cell 1 1 10 example_row, at_cell 1 2 20 example_row, at_cell 2 1 30 example_row])"
proof -
  have h1: "mset [at_cell 2 1 30 example_row, at_cell 1 1 10 example_row, at_cell 1 2 20 example_row] =
     mset [at_cell 1 1 10 example_row, at_cell 1 2 20 example_row, at_cell 2 1 30 example_row]"
    by (simp add: add_mset_commute)
  have h2: "distinct (map row_cell
        [at_cell 1 1 10 example_row, at_cell 1 2 20 example_row, at_cell 2 1 30 example_row])"
    by (simp add: example_cells)
  have h3: "\<forall>row\<in>set [at_cell 1 1 10 example_row, at_cell 1 2 20 example_row,
      at_cell 2 1 30 example_row]. no_bar (row_criterion row)"
    by (simp add: no_bar_def at_cell_def example_row_def)
  from h1 h2 collate_permutation_invariant [OF h1 h2 h3] show ?thesis by simp
qed

lemma collate_same_cell:
  "map (\<lambda>(k, vals). (k, grid_list vals))
     (leaves (collateMeasurements ck simplify [at_cell 1 1 v row, at_cell 1 1 w row])) =
   [(row_series row, [Some [Some w]])]"
  by (simp add: collateMeasurements_def collate_row_def new_collation_def at_cell_def
      findOrConstructProcessedResult_def findOrConstructMeasurements_def findMeasurements_def
      matches_def store_value_def array_set_def empty_array_def is_index_def Let_def
      sortResultsAlphabetically_def sort_entries_def new_Map_def leaves_def
      series_key_def row_series_def grid_list_def to_list_def)

lemma collate_bar_rows:
  "map fst (leaves (collateMeasurements ck simplify
     [row\<lparr>row_criterion := ''a|b'', row_unit := ''c''\<rparr>,
      row\<lparr>row_criterion := ''a'', row_unit := ''b|c''\<rparr>])) =
   [(exe row, suite row, bench row, (envid row, commitid row, runid row, trialid row, ''a|b'')),
    (exe row, suite row, bench row, (envid row, commitid row, runid row, trialid row, ''a|b''))]"
  "map fst (leaves (collateMeasurements ck simplify
     [row\<lparr>row_criterion := ''a'', row_unit := ''b|c''\<rparr>,
      row\<lparr>row_criterion := ''a|b'', row_unit := ''c''\<rparr>])) =
   [(exe row, suite row, bench row, (envid row, commitid row, runid row, trialid row, ''a'')),
    (exe row, suite row, bench row, (envid row, commitid row, runid row, trialid row, ''a''))]"
  by (simp_all add: collateMeasurements_def collate_row_def new_collation_def
      findOrConstructProcessedResult_def findOrConstructMeasurements_def findMeasurements_def
      matches_def Let_def sortResultsAlphabetically_def sort_entries_def new_Map_def leaves_def
      series_key_def)

text \<open>
  C6 as stated fails in two ways. Two rows that differ in their value only do not share
  their full tuple, yet they are written to the same cell and the later one wins: the two
  orders leave 20 and 10 in the grid. And two rows whose criterion and unit spell the same
  key with the bar at different places share one criterion object, that of the first row:
  the two orders give series of different names.
\<close>

theorem permutation_claim_counterexample:
  "mset [at_cell 1 1 20 example_row, at_cell 1 1 10 example_row] =
     mset [at_cell 1 1 10 example_row, at_cell 1 1 20 example_row]
   \<and> at_cell 1 1 10 example_row \<noteq> at_cell 1 1 20 example_row
   \<and> map (\<lambda>(k, vals). (k, grid_list vals))
        (leaves (collateMeasurements numeric_key id
          [at_cell 1 1 10 example_row, at_cell 1 1 20 example_row])) =
      [(row_series example_row, [Some [Some 20]])]
   \<and> map (\<lambda>(k, vals). (k, grid_list vals))
        (leaves (collateMeasurements numeric_key id
          [at_cell 1 1 20 example_row, at_cell 1 1 10 example_row])) =
      [(row_series example_row, [Some [Some 10]])]
   \<and> leaf_content (collateMeasurements numeric_key id
        [at_cell 1 1 10 example_row, at_cell 1 1 20 example_row]) \<noteq>
      leaf_content (collateMeasurements numeric_key id
        [at_cell 1 1 20 example_row, at_cell 1 1 10 example_row])
   \<and> distinct (map row_cell
        [example_row\<lparr>row_criterion := ''a|b'', row_unit := ''c''\<rparr>,
         example_row\<lparr>row_criterion := ''a'', row_unit := ''b|c''\<rparr>])
   \<and> leaf_content (collateMeasurements numeric_key id
        [example_row\<lparr>row_criterion := ''a|b'', row_unit := ''c''\<rparr>,
         example_row\<lparr>row_criterion := ''a'', row_unit := ''b|c''\<rparr>]) \<noteq>
      leaf_content (collateMeasurements numeric_key id
        [example_row\<lparr>row_criterion := ''a'', row_unit := ''b|c''\<rparr>,
         example_row\<lparr>row_criterion := ''a|b'', row_unit := ''c''\<rparr>])"
proof -
  let ?f = "\<lambda>(k, vals). (k, grid_list vals)"
  let ?A = "collateMeasurements numeric_key id
      [at_cell 1 1 10 example_row, at_cell 1 1 20 example_row]"
  let ?B = "collateMeasurements numeric_key id
      [at_cell 1 1 20 example_row, at_cell 1 1 10 example_row]"
  let ?C = "collateMeasurements numeric_key id
        [example_row\<lparr>row_criterion := ''a|b'', row_unit := ''c''\<rparr>,
         example_row\<lparr>row_criterion := ''a'', row_unit := ''b|c''\<rparr>]"
  let ?D = "collateMeasurements numeric_key id
        [example_row\<lparr>row_criterion := ''a'', row_unit := ''b|c''\<rparr>,
         example_row\<lparr>row_criterion := ''a|b'', row_unit := ''c''\<rparr>]"
  have a: "map ?f (leaves ?A) = [(row_series example_row, [Some [Some 20]])]"
    and b: "map ?f (leaves ?B) = [(row_series example_row, [Some [Some 10]])]"
    by (rule collate_same_cell)+
  have ab: "leaf_content ?A \<noteq> leaf_content ?B"
  proof
    assume "leaf_content ?A = leaf_content ?B"
    then have "set (map ?f (leaves ?A)) = set (map ?f (leaves ?B))"
      by (simp add: leaf_content_def)
    then show False unfolding a b by simp
  qed
  have cd: "leaf_content ?C \<noteq> leaf_content ?D"
  proof
    assume "leaf_content ?C = leaf_content ?D"
    then have "set (map fst (leaves ?C)) = set (map fst (leaves ?D))"
      by (simp add: leaf_content_def)
    then show False unfolding collate_bar_rows by simp
  qed
  have m: "mset [at_cell 1 1 20 example_row, at_cell 1 1 10 example_row] =
     mset [at_cell 1 1 10 example_row, at_cell 1 1 20 example_row]"
    by (simp add: add_mset_commute)
  have n: "at_cell 1 1 10 example_row \<noteq> at_cell 1 1 20 example_row"
    by (simp add: at_cell_def example_row_def)
  have d: "distinct (map row_cell
        [example_row\<lparr>row_criterion := ''a|b'', row_unit := ''c''\<rparr>,
         example_row\<lparr>row_criterion := ''a'', row_unit := ''b|c''\<rparr>])"
    by (simp add: row_cell_def row_series_def)
  from m n a b ab d cd show ?thesis by (intro conjI)
qed

lemma object_keys_plain:
  assumes "\<forall>k\<in>set (map fst obj). \<not> is_array_index k"
  shows "object_keys obj = map fst obj"
proof -
  from assms have "filter is_array_index (map fst obj) = []"
    by (simp add: filter_empty_conv)
  moreover from assms have "filter (\<lambda>k. \<not> is_array_index k) (map fst obj) = map fst obj"
    by (simp add: filter_id_conv)
  ultimately show ?thesis by (simp add: object_keys_def)
qed

lemma lookup2_mem:
  assumes "distinct_keys byExe" and "(e, bySuite) \<in> set byExe" and "(s, byBench) \<in> set bySuite"
  shows "lookup2 byExe e s = Some byBench"
proof -
  from assms(1,2) have "distinct (map fst byExe)" "distinct (map fst bySuite)"
    unfolding distinct_keys_def by blast+
  with assms(2,3) have "map_get byExe e = Some bySuite" "map_get bySuite s = Some byBench"
    by (simp_all add: map_get_iff_mem)
  then show ?thesis by (simp add: lookup2_def)
qed

lemma distinct_keys_collate_rows:
  "distinct_keys (byExeSuiteBench st) \<Longrightarrow>
   distinct_keys (byExeSuiteBench (collate_rows simplify data st))"
  by (induction data arbitrary: st) (simp_all add: distinct_keys_collate_row)

text \<open>
  C8, as the code has it. In the structure that \<open>collateMeasurements\<close> returns, for every
  list of rows, the execution units, the suites of every execution unit and the benchmarks
  of every suite are sorted by the collation key of the comparator. The criteria record
  of every suite enumerates the criterion names of the suite's rows in the order of their
  first occurrence, provided that no criterion name of the rows is an array index or
  \<^verbatim>\<open>__proto__\<close> and none contains the bar of the criterion key; this proviso bears on the
  criteria record alone.
\<close>

theorem collate_sorted_levels:
  "sorted (map ck (map fst (collateMeasurements ck simplify data))) \<and>
   (\<forall>(e, bySuite) \<in> set (collateMeasurements ck simplify data).
      sorted (map ck (map fst bySuite)) \<and>
      (\<forall>(s, byBench) \<in> set bySuite.
         sorted (map ck (map fst (benchmarks byBench))) \<and>
         ((\<forall>row\<in>set data. no_bar (row_criterion row) \<and> \<not> is_array_index (row_criterion row)
             \<and> row_criterion row \<noteq> ''__proto__'') \<longrightarrow>
          object_keys (criteria byBench) =
            first_seen (map row_criterion (filter (\<lambda>row. exe row = e \<and> suite row = s) data)))))"
proof -
  let ?B = "byExeSuiteBench (collate_rows simplify data new_collation)"
  have "distinct_keys (byExeSuiteBench new_collation)"
    by (simp add: new_collation_def distinct_keys_empty)
  then have dk: "distinct_keys ?B" by (rule distinct_keys_collate_rows)
  have R: "collateMeasurements ck simplify data =
      map (\<lambda>(e, bySuite). (e, sorted_suites ck bySuite)) (sort_entries ck ?B)"
    unfolding collateMeasurements_def by (rule sortResultsAlphabetically_eq [OF dk])
  have "map fst (collateMeasurements ck simplify data) = map fst (sort_entries ck ?B)"
    unfolding R by (simp add: split_def comp_def)
  then have top: "sorted (map ck (map fst (collateMeasurements ck simplify data)))"
    by (simp only: sorted_sort_entries)
  have inner: "sorted (map ck (map fst bySuite')) \<and>
        (\<forall>(s, byBench) \<in> set bySuite'.
           sorted (map ck (map fst (benchmarks byBench))) \<and>
           ((\<forall>row\<in>set data. no_bar (row_criterion row) \<and> \<not> is_array_index (row_criterion row)
               \<and> row_criterion row \<noteq> ''__proto__'') \<longrightarrow>
            object_keys (criteria byBench) =
              first_seen (map row_criterion (filter (\<lambda>row. exe row = e \<and> suite row = s) data))))"
    if m: "(e, bySuite') \<in> set (collateMeasurements ck simplify data)" for e bySuite'
  proof -
    from m obtain bySuite where e: "(e, bySuite) \<in> set ?B" "bySuite' = sorted_suites ck bySuite"
      unfolding collateMeasurements_def by (rule sorted_structure_exe [OF dk])
    have 1: "sorted (map ck (map fst bySuite'))"
      unfolding e(2) keys_sorted_suites by (rule sorted_sort_entries)
    have 2: "sorted (map ck (map fst (benchmarks byBench'))) \<and>
           ((\<forall>row\<in>set data. no_bar (row_criterion row) \<and> \<not> is_array_index (row_criterion row)
               \<and> row_criterion row \<noteq> ''__proto__'') \<longrightarrow>
            object_keys (criteria byBench') =
              first_seen (map row_criterion (filter (\<lambda>row. exe row = e \<and> suite row = s) data)))"
      if "(s, byBench') \<in> set bySuite'" for s byBench'
    proof -
      from that e(2) sorted_structure_suite obtain byBench where
        s: "(s, byBench) \<in> set bySuite" "byBench' = sorted_benchmarks ck byBench" by blast
      have "benchmarks byBench' = sort_entries ck (benchmarks byBench)"
        by (simp add: s(2) sorted_benchmarks_def)
      then have b: "sorted (map ck (map fst (benchmarks byBench')))"
        by (simp only: sorted_sort_entries)
      have l: "lookup2 ?B e s = Some byBench" using dk e(1) s(1) by (rule lookup2_mem)
      have c: "object_keys (criteria byBench') =
          first_seen (map row_criterion (filter (\<lambda>row. exe row = e \<and> suite row = s) data))"
        if names_ok: "\<forall>row\<in>set data. no_bar (row_criterion row) \<and>
          \<not> is_array_index (row_criterion row) \<and> row_criterion row \<noteq> ''__proto__''"
      proof -
        from names_ok have nb: "\<forall>r\<in>set data. no_bar (row_criterion r)" by simp
        note ord = collation_of_rows_parts(3) [OF collation_of_all_rows [OF nb, of simplify]]
        have names: "recorded_names e s data =
            map row_criterion (filter (\<lambda>row. exe row = e \<and> suite row = s) data)"
          unfolding recorded_names_def using names_ok by (simp add: filter_id_conv)
        from l ord have "map fst (criteria byBench) = first_seen (recorded_names e s data)"
          unfolding criteria_in_order_def by blast
        then have keys: "map fst (criteria byBench) =
            first_seen (map row_criterion (filter (\<lambda>row. exe row = e \<and> suite row = s) data))"
          by (simp only: names)
        have "\<forall>k\<in>set (map fst (criteria byBench)). \<not> is_array_index k"
          unfolding keys set_first_seen using names_ok by auto
        then have "object_keys (criteria byBench) = map fst (criteria byBench)"
          by (rule object_keys_plain)
        then show ?thesis
          unfolding s(2) keys by (simp add: sorted_benchmarks_def)
      qed
      from b c show ?thesis by blast
    qed
    from 1 2 show ?thesis by blast
  qed
  from top inner show ?thesis by blast
qed

lemma keys_examples:
  "\<not> is_array_index ''total''" "\<not> is_array_index ''gc''"
  "is_array_index ''1''" "is_array_index ''2''"
  "digits_value ''1'' = 1" "digits_value ''2'' = 2"
  by (simp_all add: is_array_index_def digits_value_def string_of_nat.simps digit_char_def)

lemma numeric_key_examples:
  "numeric_key ''bench1'' = [(1, 98), (1, 101), (1, 110), (1, 99), (1, 104), (0, 1)]"
  "numeric_key ''bench2'' = [(1, 98), (1, 101), (1, 110), (1, 99), (1, 104), (0, 2)]"
  "numeric_key ''bench10'' = [(1, 98), (1, 101), (1, 110), (1, 99), (1, 104), (0, 10)]"
  by (simp_all add: numeric_key_def)

lemma collate_example_benchmarks:
  "map (\<lambda>(e, bySuite). (e, map (\<lambda>(s, byBench). (s, map fst (benchmarks byBench))) bySuite))
     (collateMeasurements numeric_key id
       [example_bench ''bench10'' ''total'', example_bench ''bench2'' ''total'',
        example_bench ''bench1'' ''gc'', example_bench ''bench1'' ''total'']) =
   [(''A'', [(''S'', [''bench1'', ''bench2'', ''bench10''])])]"
  by (simp add: collateMeasurements_def collate_row_def new_collation_def example_bench_def
      example_row_def findOrConstructProcessedResult_def findOrConstructMeasurements_def
      findMeasurements_def matches_def Let_def sortResultsAlphabetically_def sort_entries_def
      new_Map_def numeric_key_examples object_set_def)

theorem collate_sorted_levels_witness:
  "sorted (map numeric_key (map fst (collateMeasurements numeric_key id
       [example_bench ''bench10'' ''total'', example_bench ''bench2'' ''total'',
        example_bench ''bench1'' ''gc'', example_bench ''bench1'' ''total''])))
   \<and> map (\<lambda>(e, bySuite). (e, map (\<lambda>(s, byBench).
         (s, map fst (benchmarks byBench), object_keys (criteria byBench))) bySuite))
       (collateMeasurements numeric_key id
         [example_bench ''bench10'' ''total'', example_bench ''bench2'' ''total'',
          example_bench ''bench1'' ''gc'', example_bench ''bench1'' ''total'']) =
     [(''A'', [(''S'', [''bench1'', ''bench2'', ''bench10''], [''total'', ''gc''])])]
   \<and> numeric_key ''bench2'' < numeric_key ''bench10''"
proof -
  let ?rows = "[example_bench ''bench10'' ''total'', example_bench ''bench2'' ''total'',
        example_bench ''bench1'' ''gc'', example_bench ''bench1'' ''total'']"
  let ?R = "collateMeasurements numeric_key id ?rows"
  have h: "\<forall>row\<in>set ?rows.
      no_bar (row_criterion row) \<and> \<not> is_array_index (row_criterion row)
      \<and> row_criterion row \<noteq> ''__proto__''"
    by (simp add: example_bench_def no_bar_def keys_examples)
  note t = collate_sorted_levels [of numeric_key id ?rows]
  from t have top: "sorted (map numeric_key (map fst ?R))" by (rule conjunct1)
  from collate_example_benchmarks obtain byBench where
    R: "?R = [(''A'', [(''S'', byBench)])]"
    and b: "map fst (benchmarks byBench) = [''bench1'', ''bench2'', ''bench10'']"
    by (auto simp: map_eq_Cons_conv)
  from t h have "object_keys (criteria byBench) =
      first_seen (map row_criterion (filter (\<lambda>row. exe row = ''A'' \<and> suite row = ''S'') ?rows))"
    unfolding R by simp
  also have "\<dots> = [''total'', ''gc'']"
    by (simp add: example_bench_def example_row_def first_seen_def)
  finally have c: "object_keys (criteria byBench) = [''total'', ''gc'']" .
  have "numeric_key ''bench2'' < numeric_key ''bench10''"
    by (simp add: numeric_key_examples)
  with top b c show ?thesis unfolding R by simp
qed

lemma more_keys_examples:
  "\<not> is_array_index ''a|b''" "\<not> is_array_index ''a''"
  by (simp_all add: is_array_index_def digits_value_def string_of_nat.simps digit_char_def)

text \<open>
  C8 as stated fails for the criteria record in three ways. Criteria named 2 and 1, met
  in this order, are enumerated as 1, 2: a plain object lists the keys that are array
  indices first, by their value. A criterion a|b with unit c followed by a criterion a
  with unit b|c leaves the one name a|b in the record, although two criteria were met. And
  a criterion named \<^verbatim>\<open>__proto__\<close> leaves no property in the record.
\<close>

theorem criteria_order_claim_counterexample:
  "map (\<lambda>(e, bySuite). (e, map (\<lambda>(s, byBench). (s, object_keys (criteria byBench))) bySuite))
     (collateMeasurements numeric_key id [example_bench ''B'' ''2'', example_bench ''B'' ''1'']) =
   [(''A'', [(''S'', [''1'', ''2''])])]
   \<and> first_seen (map row_criterion [example_bench ''B'' ''2'', example_bench ''B'' ''1'']) =
     [''2'', ''1'']
   \<and> map (\<lambda>(e, bySuite). (e, map (\<lambda>(s, byBench). (s, object_keys (criteria byBench))) bySuite))
     (collateMeasurements numeric_key id
       [example_row\<lparr>row_criterion := ''a|b'', row_unit := ''c''\<rparr>,
        example_row\<lparr>row_criterion := ''a'', row_unit := ''b|c''\<rparr>]) =
   [(''A'', [(''S'', [''a|b''])])]
   \<and> first_seen (map row_criterion
       [example_row\<lparr>row_criterion := ''a|b'', row_unit := ''c''\<rparr>,
        example_row\<lparr>row_criterion := ''a'', row_unit := ''b|c''\<rparr>]) =
     [''a|b'', ''a'']
   \<and> map (\<lambda>(e, bySuite). (e, map (\<lambda>(s, byBench). (s, object_keys (criteria byBench))) bySuite))
     (collateMeasurements numeric_key id [example_bench ''B'' ''__proto__'']) =
   [(''A'', [(''S'', [])])]
   \<and> first_seen (map row_criterion [example_bench ''B'' ''__proto__'']) = [''__proto__'']"
  by (simp add: collateMeasurements_def collate_row_def new_collation_def example_bench_def
      example_row_def findOrConstructProcessedResult_def findOrConstructMeasurements_def
      findMeasurements_def matches_def Let_def sortResultsAlphabetically_def sort_entries_def
      new_Map_def object_keys_def object_set_def keys_examples more_keys_examples
      first_seen_def)

end
